theory Spec2Isabelle
  imports Main "HOL-Library.Sublist"
begin

section \<open>Strings and JavaScript values\<close>

text \<open>
  A JavaScript string is modelled by the list of bytes of its UTF-8 form. Every character
  that \<^verbatim>\<open>drive.ts\<close> inspects (the separator, the quote, the percent sign, hexadecimal
  digits) is ASCII, and an ASCII byte never occurs inside a multi-byte sequence, so the
  string operations of the source act on the bytes as they act on the characters.
\<close>

abbreviation squote :: char where
  "squote \<equiv> CHR 0x27"

abbreviation backslash :: char where
  "backslash \<equiv> CHR 0x5C"

definition TOKEN_URL :: string where
  "TOKEN_URL = ''https://www.googleapis.com/oauth2/v4/token''"

definition DRIVE_URL :: string where
  "DRIVE_URL = ''https://www.googleapis.com/drive/v3/files''"

definition FOLDER_TYPE :: string where
  "FOLDER_TYPE = ''application/vnd.google-apps.folder''"

definition FILE_ATTRS :: string where
  "FILE_ATTRS = ''id, name, mimeType, size, modifiedTime, description, iconLink, thumbnailLink, imageMediaMetadata''"

text \<open>The values of a parameter record: strings and numbers, with JavaScript's truthiness
  and conversion to string.\<close>

datatype jsval = JStr string | JNum int

fun truthy :: "jsval \<Rightarrow> bool" where
  "truthy (JStr s) = (s \<noteq> [])"
| "truthy (JNum n) = (n \<noteq> 0)"

function decimal :: "nat \<Rightarrow> string" where
  "decimal n =
     (if n < 10 then [char_of (48 + n)]
      else decimal (n div 10) @ [char_of (48 + n mod 10)])"
  by pat_completeness auto
termination
  by (relation "measure (\<lambda>n. n)") auto

declare decimal.simps [simp del]

fun to_string :: "jsval \<Rightarrow> string" where
  "to_string (JStr s) = s"
| "to_string (JNum n) = (if n < 0 then CHR ''-'' # decimal (nat (- n)) else decimal (nat n))"

subsection \<open>Percent encoding\<close>

definition hexdigit :: "nat \<Rightarrow> char" where
  "hexdigit n = (if n < 10 then char_of (48 + n) else char_of (55 + n))"

definition unreserved :: "char \<Rightarrow> bool" where
  "unreserved c =
     (let n = (of_char c :: nat) in
        (65 \<le> n \<and> n \<le> 90) \<or> (97 \<le> n \<and> n \<le> 122) \<or> (48 \<le> n \<and> n \<le> 57)
        \<or> c \<in> set ''-_.!~*()'' \<or> c = squote)"

text \<open>\<^verbatim>\<open>encodeURIComponent\<close>: every byte of the UTF-8 form that is not an unreserved
  character becomes a percent sign and two upper-case hexadecimal digits.\<close>

definition encodeURIComponent :: "string \<Rightarrow> string" where
  "encodeURIComponent s =
     concat (map (\<lambda>c. if unreserved c then [c]
                       else [CHR ''%'', hexdigit (of_char c div 16), hexdigit (of_char c mod 16)]) s)"

definition hexval :: "char \<Rightarrow> nat option" where
  "hexval c =
     (let n = (of_char c :: nat) in
        if 48 \<le> n \<and> n \<le> 57 then Some (n - 48)
        else if 65 \<le> n \<and> n \<le> 70 then Some (n - 55)
        else if 97 \<le> n \<and> n \<le> 102 then Some (n - 87)
        else None)"

text \<open>A lead byte of a well-formed UTF-8 sequence: the number of continuation bytes that
  follow it and the range of the first of them (no overlong form, no surrogate, nothing
  beyond U+10FFFF).\<close>

definition utf8_lead :: "nat \<Rightarrow> (nat \<times> nat \<times> nat) option" where
  "utf8_lead b =
     (if 0xC2 \<le> b \<and> b \<le> 0xDF then Some (1, 0x80, 0xBF)
      else if b = 0xE0 then Some (2, 0xA0, 0xBF)
      else if b = 0xED then Some (2, 0x80, 0x9F)
      else if 0xE1 \<le> b \<and> b \<le> 0xEF then Some (2, 0x80, 0xBF)
      else if b = 0xF0 then Some (3, 0x90, 0xBF)
      else if 0xF1 \<le> b \<and> b \<le> 0xF3 then Some (3, 0x80, 0xBF)
      else if b = 0xF4 then Some (3, 0x80, 0x8F)
      else None)"

text \<open>The decoding loop of \<^verbatim>\<open>decodeURIComponent\<close>. \<open>pending\<close> is the number of
  continuation bytes still owed to the current multi-byte sequence, each of which must be
  an escape in the range \<open>lo..hi\<close>. The value \<open>None\<close> is the \<^verbatim>\<open>URIError\<close> that
  JavaScript throws on a malformed escape.\<close>

fun decode :: "nat \<Rightarrow> nat \<Rightarrow> nat \<Rightarrow> string \<Rightarrow> string option" where
  "decode pending lo hi [] = (if pending = 0 then Some [] else None)"
| "decode pending lo hi (c # cs) =
     (if c \<noteq> CHR ''%'' then
        (if pending = 0 then map_option (Cons c) (decode 0 0 0 cs) else None)
      else
        (case cs of
           h1 # h2 # rest \<Rightarrow>
             (case (hexval h1, hexval h2) of
                (Some a, Some b) \<Rightarrow>
                  (let byte = 16 * a + b in
                     if pending = 0 then
                       (if byte < 0x80 then map_option (Cons (char_of byte)) (decode 0 0 0 rest)
                        else
                          (case utf8_lead byte of
                             None \<Rightarrow> None
                           | Some (n, lo', hi') \<Rightarrow>
                               map_option (Cons (char_of byte)) (decode n lo' hi' rest)))
                     else if lo \<le> byte \<and> byte \<le> hi then
                       map_option (Cons (char_of byte)) (decode (pending - 1) 0x80 0xBF rest)
                     else None)
              | _ \<Rightarrow> None)
         | _ \<Rightarrow> None))"

definition decodeURIComponent :: "string \<Rightarrow> string option" where
  "decodeURIComponent s = decode 0 0 0 s"

subsection \<open>The string helpers of the class\<close>

text \<open>\<^verbatim>\<open>Array.prototype.join\<close> with a separator.\<close>

fun join_with :: "string \<Rightarrow> string list \<Rightarrow> string" where
  "join_with sep [] = []"
| "join_with sep [x] = x"
| "join_with sep (x # y # ys) = x @ sep @ join_with sep (y # ys)"

text \<open>\<^verbatim>\<open>stringify\<close>: the falsy values are left out, the others are encoded in the order
  of the record.\<close>

definition stringify :: "(string \<times> jsval) list \<Rightarrow> string" where
  "stringify p =
     join_with ''&''
       (map (\<lambda>(k, v). encodeURIComponent k @ ''='' @ encodeURIComponent (to_string v))
            (filter (\<lambda>(k, v). truthy v) p))"

text \<open>\<^verbatim>\<open>.replace(/\/+/g, "/")\<close>: every run of separators becomes one separator.\<close>

fun collapse_slashes :: "string \<Rightarrow> string" where
  "collapse_slashes (c # d # cs) =
     (if c = CHR ''/'' \<and> d = CHR ''/'' then collapse_slashes (d # cs)
      else c # collapse_slashes (d # cs))"
| "collapse_slashes cs = cs"

text \<open>\<^verbatim>\<open>join(...paths)\<close>: the parts are concatenated (\<^verbatim>\<open>paths.join("")\<close>) and the runs
  of separators collapsed.\<close>

definition join :: "string list \<Rightarrow> string" where
  "join paths = collapse_slashes (concat paths)"

text \<open>\<^verbatim>\<open>trim(string, char)\<close> with a character given, the only way the class calls it:
  the leading and the trailing run of that character are removed.\<close>

definition trim :: "string \<Rightarrow> char \<Rightarrow> string" where
  "trim s c = rev (dropWhile (\<lambda>x. x = c) (rev (dropWhile (\<lambda>x. x = c) s)))"

text \<open>\<^verbatim>\<open>String.prototype.split\<close> on a one-character separator. The result is never empty
  (the last case cannot occur).\<close>

fun js_split :: "string \<Rightarrow> char \<Rightarrow> string list" where
  "js_split [] c = [[]]"
| "js_split (x # xs) c =
     (if x = c then [] # js_split xs c
      else (case js_split xs c of
              w # ws \<Rightarrow> (x # w) # ws
            | [] \<Rightarrow> [[x]]))"

text \<open>\<^verbatim>\<open>.replace(/\'/g, "\\'")\<close>: a backslash is put before every quote.\<close>

definition escape_quotes :: "string \<Rightarrow> string" where
  "escape_quotes s = concat (map (\<lambda>c. if c = squote then [backslash, squote] else [c]) s)"

section \<open>The data model\<close>

text \<open>The metadata of a remote object, as the listing endpoint returns it: the class reads
  the identifier and the MIME type and passes the other attributes through.\<close>

record metadata =
  id' :: string
  mimeType :: string
  attrs :: "(string \<times> string) list"

record DriveOptions =
  client_id :: string
  client_secret :: string
  refresh_token :: string
  root_id :: "string option"
  access_token :: "string option"
  expires_on :: "int option"
  logger :: "bool option"

text \<open>What an operation can end with instead of a value: a thrown \<^verbatim>\<open>{status, message}\<close>,
  a \<^verbatim>\<open>URIError\<close> of \<^verbatim>\<open>decodeURIComponent\<close>, a \<^verbatim>\<open>TypeError\<close> on reading a
  property of \<^verbatim>\<open>undefined\<close>, or \<open>NoReply\<close>: the awaited response never arrives.\<close>

datatype failure = Thrown nat string | URIError | TypeError | NoReply

subsection \<open>The network\<close>

text \<open>
  The remote endpoints are an oracle: for each endpoint the world holds the replies it will
  give, in order, each with the clock reading at its arrival. A fetch is recorded in
  \<open>sent\<close> and takes the next reply of its endpoint; with no reply left the operation
  never returns (\<open>NoReply\<close>). A theorem for every world is a theorem for every behaviour
  of the server. Output to the console (the \<^verbatim>\<open>logger\<close> option) is not modelled.
\<close>

datatype token_json = Granted string int | Refused string

record token_reply =
  t_arrive :: int
  t_status :: nat
  t_body :: token_json

datatype drive_json = FileList "metadata list" "string option" | ApiError string

record drive_reply =
  d_arrive :: int
  d_status :: nat
  d_body :: drive_json

record media_reply =
  m_arrive :: int
  m_status :: nat
  m_stream :: string
  m_error :: string

datatype fetch = Fetch string string "(string \<times> string) list" string

record world =
  now :: int
  token_replies :: "token_reply list"
  drive_replies :: "drive_reply list"
  media_replies :: "media_reply list"
  sent :: "fetch list"

text \<open>An instance of the class together with the world it runs in. A cache entry is
  \<open>None\<close> when the key is absent, \<open>Some None\<close> when the key holds \<^verbatim>\<open>undefined\<close> and
  \<open>Some (Some m)\<close> when it holds an object.\<close>

record GoogleDrive = world +
  options :: DriveOptions
  pathCache :: "string \<rightharpoonup> metadata option"

text \<open>The read \<^verbatim>\<open>this.pathCache[key]\<close>: \<^verbatim>\<open>undefined\<close> for an absent key and for a key
  that holds \<^verbatim>\<open>undefined\<close> alike.\<close>

definition cache_get :: "(string \<rightharpoonup> metadata option) \<Rightarrow> string \<Rightarrow> metadata option" where
  "cache_get c k = (case c k of None \<Rightarrow> None | Some v \<Rightarrow> v)"

definition constructor :: "DriveOptions \<Rightarrow> world \<Rightarrow> GoogleDrive" where
  "constructor opts w =
     (let root = (case root_id opts of
                    None \<Rightarrow> ''root''
                  | Some r \<Rightarrow> if r = [] then ''root'' else r)
      in \<lparr> now = now w, token_replies = token_replies w, drive_replies = drive_replies w,
           media_replies = media_replies w, sent = sent w,
           options = opts\<lparr>root_id := Some root\<rparr>,
           pathCache = [''/'' \<mapsto> Some \<lparr> id' = root, mimeType = FOLDER_TYPE, attrs = [] \<rparr>] \<rparr>)"

text \<open>A fetch to each of the three endpoints.\<close>

definition fetch_token :: "fetch \<Rightarrow> GoogleDrive \<Rightarrow> token_reply option \<times> GoogleDrive" where
  "fetch_token f s =
     (case token_replies s of
        [] \<Rightarrow> (None, s\<lparr>sent := sent s @ [f]\<rparr>)
      | r # rs \<Rightarrow> (Some r, s\<lparr>now := t_arrive r, token_replies := rs, sent := sent s @ [f]\<rparr>))"

definition fetch_drive :: "fetch \<Rightarrow> GoogleDrive \<Rightarrow> drive_reply option \<times> GoogleDrive" where
  "fetch_drive f s =
     (case drive_replies s of
        [] \<Rightarrow> (None, s\<lparr>sent := sent s @ [f]\<rparr>)
      | r # rs \<Rightarrow> (Some r, s\<lparr>now := d_arrive r, drive_replies := rs, sent := sent s @ [f]\<rparr>))"

definition fetch_media :: "fetch \<Rightarrow> GoogleDrive \<Rightarrow> media_reply option \<times> GoogleDrive" where
  "fetch_media f s =
     (case media_replies s of
        [] \<Rightarrow> (None, s\<lparr>sent := sent s @ [f]\<rparr>)
      | r # rs \<Rightarrow> (Some r, s\<lparr>now := m_arrive r, media_replies := rs, sent := sent s @ [f]\<rparr>))"

section \<open>The token manager\<close>

definition token_request :: "DriveOptions \<Rightarrow> fetch" where
  "token_request opts =
     Fetch ''POST'' TOKEN_URL [(''Content-Type'', ''application/x-www-form-urlencoded'')]
       (stringify [(''client_id'', JStr (client_id opts)),
                   (''client_secret'', JStr (client_secret opts)),
                   (''refresh_token'', JStr (refresh_token opts)),
                   (''grant_type'', JStr ''refresh_token'')])"

definition authorize :: "GoogleDrive \<Rightarrow> (failure + unit) \<times> GoogleDrive" where
  "authorize s =
     (if (case expires_on (options s) of None \<Rightarrow> False | Some e \<Rightarrow> e \<noteq> 0 \<and> e > now s)
      then (Inr (), s)
      else
        (case fetch_token (token_request (options s)) s of
           (None, s1) \<Rightarrow> (Inl NoReply, s1)
         | (Some r, s1) \<Rightarrow>
             (case t_body r of
                Refused description \<Rightarrow> (Inl (Thrown (t_status r) description), s1)
              | Granted token lifetime \<Rightarrow>
                  (Inr (),
                   s1\<lparr>options := (options s1)\<lparr>expires_on := Some (now s1 + (lifetime - 300) * 1000),
                                               access_token := Some token\<rparr>\<rparr>))))"

section \<open>The query executor\<close>

text \<open>\<^verbatim>\<open>"Bearer " + this.options.access_token\<close>: an absent token reads \<^verbatim>\<open>undefined\<close>.\<close>

definition bearer :: "DriveOptions \<Rightarrow> string" where
  "bearer opts = ''Bearer '' @ (case access_token opts of None \<Rightarrow> ''undefined'' | Some t \<Rightarrow> t)"

definition drive_request :: "(string \<times> jsval) list \<Rightarrow> DriveOptions \<Rightarrow> fetch" where
  "drive_request params opts =
     Fetch ''GET'' (DRIVE_URL @ ''?'' @ stringify params) [(''Authorization'', bearer opts)] []"

record listing =
  files :: "metadata list"
  nextPageToken :: "string option"

function request :: "(string \<times> jsval) list \<Rightarrow> GoogleDrive \<Rightarrow> (failure + listing) \<times> GoogleDrive" where
  "request params s =
     (case authorize s of
        (Inl e, s1) \<Rightarrow> (Inl e, s1)
      | (Inr _, s1) \<Rightarrow>
          (case fetch_drive (drive_request params (options s1)) s1 of
             (None, s2) \<Rightarrow> (Inl NoReply, s2)
           | (Some r, s2) \<Rightarrow>
               (case d_body r of
                  ApiError message \<Rightarrow>
                    if prefix ''User Rate Limit Exceeded'' message then request params s2
                    else (Inl (Thrown (d_status r) message), s2)
                | FileList fs token \<Rightarrow> (Inr \<lparr> files = fs, nextPageToken = token \<rparr>, s2))))"
  by pat_completeness auto
termination
proof (relation "measure (\<lambda>(params, s). length (drive_replies s))")
  show "wf (measure (\<lambda>(params, s). length (drive_replies s)))"
    by simp
next
  fix params :: "(string \<times> jsval) list" and s s1 s2 :: GoogleDrive
    and x :: "failure + unit" and u :: unit and y :: "drive_reply option" and r message
  assume a: "(x, s1) = authorize s" "x = Inr u"
    and f: "(y, s2) = fetch_drive (drive_request params (options s1)) s1" "y = Some r"
  have "drive_replies s1 = drive_replies s"
    using a(1) by (auto simp: authorize_def fetch_token_def split: if_splits list.splits token_json.splits)
  moreover have "length (drive_replies s2) < length (drive_replies s1)"
    using f by (auto simp: fetch_drive_def split: list.splits)
  ultimately show "((params, s2), (params, s)) \<in> measure (\<lambda>(params, s). length (drive_replies s))"
    by simp
qed

declare request.simps [simp del]

section \<open>The path resolver and its cache\<close>

definition metadata_query :: "string \<Rightarrow> string \<Rightarrow> (string \<times> jsval) list" where
  "metadata_query parent name' =
     [(''q'', JStr ([squote] @ parent @ [squote] @ '' in parents and name = '' @ [squote] @ name'
                    @ [squote] @ '' and trashed = false'')),
      (''fields'', JStr (''files('' @ FILE_ATTRS @ '')''))]"

text \<open>\<^verbatim>\<open>result.files[0]\<close>: the first object, \<^verbatim>\<open>undefined\<close> for an empty result.\<close>

definition first_file :: "listing \<Rightarrow> metadata option" where
  "first_file result = (case files result of [] \<Rightarrow> None | f # _ \<Rightarrow> Some f)"

text \<open>The block of the loop that runs when the cumulative path has no truthy cache entry:
  the name is decoded and its quotes escaped, the query is issued under the identifier of
  the current parent (\<^verbatim>\<open>metadata.id\<close>, a \<^verbatim>\<open>TypeError\<close> if there is no parent object),
  and the first object of the answer, or \<^verbatim>\<open>undefined\<close>, is stored under the path.\<close>

definition query_segment ::
  "string \<Rightarrow> string \<Rightarrow> metadata option \<Rightarrow> GoogleDrive \<Rightarrow> (failure + unit) \<times> GoogleDrive" where
  "query_segment fullPath name' parent s =
     (case decodeURIComponent name' of
        None \<Rightarrow> (Inl URIError, s)
      | Some decoded \<Rightarrow>
          (case parent of
             None \<Rightarrow> (Inl TypeError, s)
           | Some m \<Rightarrow>
               (case request (metadata_query (id' m) (escape_quotes decoded)) s of
                  (Inl e, s1) \<Rightarrow> (Inl e, s1)
                | (Inr result, s1) \<Rightarrow>
                    (Inr (), s1\<lparr>pathCache := (pathCache s1)(fullPath \<mapsto> first_file result)\<rparr>))))"

text \<open>The loop \<^verbatim>\<open>for (let name of subpath)\<close> with its two variables, the cumulative
  path and the parent object; it stops at the first segment whose entry is falsy.\<close>

fun walk :: "string list \<Rightarrow> string \<Rightarrow> metadata option \<Rightarrow> GoogleDrive \<Rightarrow> (failure + unit) \<times> GoogleDrive" where
  "walk [] fullPath parent s = (Inr (), s)"
| "walk (name' # rest) fullPath parent s =
     (let fullPath' = fullPath @ name' @ ''/'' in
        case (if cache_get (pathCache s) fullPath' = None
              then query_segment fullPath' name' parent s
              else (Inr (), s)) of
          (Inl e, s1) \<Rightarrow> (Inl e, s1)
        | (Inr _, s1) \<Rightarrow>
            (case cache_get (pathCache s1) fullPath' of
               None \<Rightarrow> (Inr (), s1)
             | Some m \<Rightarrow> walk rest fullPath' (Some m) s1))"

definition getMetadata :: "string \<Rightarrow> GoogleDrive \<Rightarrow> (failure + metadata option) \<times> GoogleDrive" where
  "getMetadata path s =
     (let path' = join [''/'', path, ''/''] in
        case (if cache_get (pathCache s) path' = None
              then walk (js_split (trim path' (CHR ''/'')) (CHR ''/'')) ''/''
                     (cache_get (pathCache s) ''/'') s
              else (Inr (), s)) of
          (Inl e, s1) \<Rightarrow> (Inl e, s1)
        | (Inr _, s1) \<Rightarrow> (Inr (cache_get (pathCache s1) path'), s1))"

section \<open>Raw data\<close>

definition media_request :: "string \<Rightarrow> string \<Rightarrow> DriveOptions \<Rightarrow> fetch" where
  "media_request ident byte_range opts =
     Fetch ''GET'' (DRIVE_URL @ ''/'' @ ident @ ''?alt=media'')
       [(''Authorization'', bearer opts), (''Range'', byte_range)] []"

definition getRawData :: "string \<Rightarrow> string \<Rightarrow> GoogleDrive \<Rightarrow> (failure + string) \<times> GoogleDrive" where
  "getRawData ident byte_range s =
     (case authorize s of
        (Inl e, s1) \<Rightarrow> (Inl e, s1)
      | (Inr _, s1) \<Rightarrow>
          (case fetch_media (media_request ident byte_range (options s1)) s1 of
             (None, s2) \<Rightarrow> (Inl NoReply, s2)
           | (Some r, s2) \<Rightarrow>
               if m_status r \<ge> 400 then (Inl (Thrown (m_status r) (m_error r)), s2)
               else (Inr (m_stream r), s2)))"

section \<open>The pagination walker\<close>

definition list_query :: "string \<Rightarrow> (string \<times> jsval) list" where
  "list_query ident =
     [(''pageToken'', JNum 0),
      (''pageSize'', JNum 1000),
      (''q'', JStr ([squote] @ ident @ [squote] @ '' in parents and trashed = false AND name != ''
                    @ [squote] @ ''.password'' @ [squote])),
      (''fields'', JStr (''nextPageToken, files('' @ FILE_ATTRS @ '')'')),
      (''orderBy'', JStr ''folder, name'')]"

text \<open>The truthiness of \<^verbatim>\<open>pageToken\<close>: absent and empty tokens are falsy.\<close>

definition token_set :: "string option \<Rightarrow> bool" where
  "token_set t = (case t of None \<Rightarrow> False | Some x \<Rightarrow> x \<noteq> [])"

text \<open>\<^verbatim>\<open>params.pageToken = pageToken\<close>: the key keeps its place in the record.\<close>

definition set_pageToken :: "string \<Rightarrow> (string \<times> jsval) list \<Rightarrow> (string \<times> jsval) list" where
  "set_pageToken t params = map (\<lambda>(k, v). if k = ''pageToken'' then (k, JStr t) else (k, v)) params"

text \<open>The statement \<^verbatim>\<open>if (pageToken) params.pageToken = pageToken\<close> at the head of the
  loop body.\<close>

definition with_token :: "string option \<Rightarrow> (string \<times> jsval) list \<Rightarrow> (string \<times> jsval) list" where
  "with_token pageToken params =
     (case pageToken of
        None \<Rightarrow> params
      | Some t \<Rightarrow> if t \<noteq> [] then set_pageToken t params else params)"

text \<open>The \<^verbatim>\<open>do ... while (pageToken)\<close> loop with its variables: the token of the last
  page, the parameters and the list collected so far.\<close>

function listFiles_loop ::
  "string option \<Rightarrow> (string \<times> jsval) list \<Rightarrow> metadata list \<Rightarrow> GoogleDrive
     \<Rightarrow> (failure + metadata list) \<times> GoogleDrive" where
  "listFiles_loop pageToken params acc s =
     (let params' = with_token pageToken params in
        case request params' s of
          (Inl e, s1) \<Rightarrow> (Inl e, s1)
        | (Inr result, s1) \<Rightarrow>
            (if token_set (nextPageToken result)
             then listFiles_loop (nextPageToken result) params' (acc @ files result) s1
             else (Inr (acc @ files result), s1)))"
  by pat_completeness auto
termination
proof (relation "measure (\<lambda>(pageToken, params, acc, s). length (drive_replies s))")
  show "wf (measure (\<lambda>(pageToken, params, acc, s). length (drive_replies s)))"
    by simp
next
  fix pageToken :: "string option" and params params' :: "(string \<times> jsval) list"
    and acc :: "metadata list" and s s1 :: GoogleDrive and x :: "failure + listing" and result
  assume r: "(x, s1) = request params' s" "x = Inr result"
  have consumed: "fst (request p t) = Inr res \<Longrightarrow>
      length (drive_replies (snd (request p t))) < length (drive_replies t)" for p t res
  proof (induction p t rule: request.induct)
    case (1 p t)
    have same: "drive_replies (snd (authorize t)) = drive_replies t"
      by (auto simp: authorize_def fetch_token_def split: list.splits token_json.splits)
    show ?case
    proof (cases "authorize t")
      case (Pair a t1)
      note auth = this
      show ?thesis
      proof (cases a)
        case (Inl e)
        with auth "1.prems" show ?thesis
          by (simp add: request.simps [of p t])
      next
        case (Inr u)
        note ok = this
        show ?thesis
        proof (cases "fetch_drive (drive_request p (options t1)) t1")
          case (Pair y t2)
          note fd = this
          have less: "y \<noteq> None \<Longrightarrow> length (drive_replies t2) < length (drive_replies t)"
            using fd same auth by (auto simp: fetch_drive_def split: list.splits)
          show ?thesis
          proof (cases y)
            case None
            with auth ok fd "1.prems" show ?thesis
              by (simp add: request.simps [of p t])
          next
            case (Some reply)
            note some = this
            show ?thesis
            proof (cases "d_body reply")
              case (FileList fs token)
              with auth ok fd some less show ?thesis
                by (simp add: request.simps [of p t])
            next
              case (ApiError message)
              note err = this
              show ?thesis
              proof (cases "prefix ''User Rate Limit Exceeded'' message")
                case False
                with auth ok fd some err "1.prems" show ?thesis
                  by (simp add: request.simps [of p t])
              next
                case True
                have eq: "request p t = request p t2"
                  using auth ok fd some err True by (simp add: request.simps [of p t])
                have "length (drive_replies (snd (request p t2))) < length (drive_replies t2)"
                  using "1.IH" [OF auth [symmetric] ok fd [symmetric] some err True] "1.prems" eq
                  by simp
                with less some eq show ?thesis
                  by simp
              qed
            qed
          qed
        qed
      qed
    qed
  qed
  from r have "fst (request params' s) = Inr result" "snd (request params' s) = s1"
    by (metis fst_conv, metis snd_conv)
  with consumed [of params' s result]
  show "((nextPageToken result, params', acc @ files result, s1), (pageToken, params, acc, s))
          \<in> measure (\<lambda>(pageToken, params, acc, s). length (drive_replies s))"
    by simp
qed

declare listFiles_loop.simps [simp del]

definition listFiles :: "string \<Rightarrow> GoogleDrive \<Rightarrow> (failure + metadata list) \<times> GoogleDrive" where
  "listFiles ident s = listFiles_loop None (list_query ident) [] s"

section \<open>The facade\<close>

record item = metadata +
  isFolder :: bool

text \<open>The object that \<^verbatim>\<open>index\<close> returns: the attributes of the resolved metadata, the
  folder flag and the capabilities, each a function of the class instance; an absent
  property is \<open>None\<close>.\<close>

record entry = item +
  list' :: "(GoogleDrive \<Rightarrow> (failure + item list) \<times> GoogleDrive) option"
  raw :: "(string \<Rightarrow> GoogleDrive \<Rightarrow> (failure + string) \<times> GoogleDrive) option"

text \<open>The body of the \<^verbatim>\<open>list\<close> capability: the children are listed and each is given
  its folder flag.\<close>

definition list_children :: "string \<Rightarrow> GoogleDrive \<Rightarrow> (failure + item list) \<times> GoogleDrive" where
  "list_children ident s =
     (case listFiles ident s of
        (Inl e, s1) \<Rightarrow> (Inl e, s1)
      | (Inr fs, s1) \<Rightarrow>
          (Inr (map (\<lambda>f. \<lparr> id' = id' f, mimeType = mimeType f, attrs = attrs f,
                            isFolder = (mimeType f = FOLDER_TYPE) \<rparr>) fs), s1))"

definition index :: "string \<Rightarrow> GoogleDrive \<Rightarrow> (failure + entry) \<times> GoogleDrive" where
  "index path s =
     (case getMetadata path s of
        (Inl e, s1) \<Rightarrow> (Inl e, s1)
      | (Inr None, s1) \<Rightarrow> (Inl (Thrown 404 ''Path not found''), s1)
      | (Inr (Some m), s1) \<Rightarrow>
          (if mimeType m = FOLDER_TYPE
           then (Inr \<lparr> id' = id' m, mimeType = mimeType m, attrs = attrs m, isFolder = True,
                        list' = Some (list_children (id' m)), raw = None \<rparr>, s1)
           else (Inr \<lparr> id' = id' m, mimeType = mimeType m, attrs = attrs m, isFolder = False,
                        list' = None, raw = Some (getRawData (id' m)) \<rparr>, s1)))"

section \<open>Notions used to state the properties\<close>

text \<open>The test at the head of \<^verbatim>\<open>authorize\<close> fails: no expiry is held, or it is falsy,
  or it is not in the future.\<close>

definition expired :: "GoogleDrive \<Rightarrow> bool" where
  "expired s = (case expires_on (options s) of None \<Rightarrow> True | Some e \<Rightarrow> e = 0 \<or> e \<le> now s)"

text \<open>The fetches recorded so far, by endpoint.\<close>

definition is_token_fetch :: "fetch \<Rightarrow> bool" where
  "is_token_fetch f = (case f of Fetch method url headers body \<Rightarrow> url = TOKEN_URL)"

definition exchanges :: "GoogleDrive \<Rightarrow> nat" where
  "exchanges s = length (filter is_token_fetch (sent s))"

text \<open>The segments of a path: the non-empty pieces between its separators. The cumulative
  path of a list of segments: each followed by a separator, after the leading one.\<close>

definition segments :: "string \<Rightarrow> string list" where
  "segments p = filter (\<lambda>n. n \<noteq> []) (js_split p (CHR ''/''))"

definition path_key :: "string list \<Rightarrow> string" where
  "path_key segs = ''/'' @ concat (map (\<lambda>n. n @ ''/'') segs)"

text \<open>A reply that the query executor answers by asking again.\<close>

definition rate_limited :: "drive_reply \<Rightarrow> bool" where
  "rate_limited r =
     (case d_body r of ApiError message \<Rightarrow> prefix ''User Rate Limit Exceeded'' message
                     | FileList fs token \<Rightarrow> False)"

text \<open>The held token is valid now and stays valid until each of the given replies has
  arrived, so that no call of \<^verbatim>\<open>authorize\<close> in between exchanges it.\<close>

definition token_outlasts :: "GoogleDrive \<Rightarrow> drive_reply list \<Rightarrow> bool" where
  "token_outlasts s rs =
     (case expires_on (options s) of
        None \<Rightarrow> False
      | Some e \<Rightarrow> e \<noteq> 0 \<and> now s < e \<and> (\<forall>r \<in> set rs. d_arrive r < e))"

text \<open>The world after a fetch of the listing endpoint has been sent and answered.\<close>

definition answered :: "(string \<times> jsval) list \<Rightarrow> drive_reply \<Rightarrow> drive_reply list \<Rightarrow> GoogleDrive \<Rightarrow> GoogleDrive" where
  "answered params r rs s =
     s\<lparr>now := d_arrive r, drive_replies := rs, sent := sent s @ [drive_request params (options s)]\<rparr>"

text \<open>The pages of a listing as the endpoint sends them: whether a reply is a page, its
  objects and its continuation token.\<close>

definition is_listing :: "drive_reply \<Rightarrow> bool" where
  "is_listing r = (case d_body r of FileList fs token \<Rightarrow> True | ApiError message \<Rightarrow> False)"

definition page_files :: "drive_reply \<Rightarrow> metadata list" where
  "page_files r = (case d_body r of FileList fs token \<Rightarrow> fs | ApiError message \<Rightarrow> [])"

definition page_token :: "drive_reply \<Rightarrow> string option" where
  "page_token r = (case d_body r of FileList fs token \<Rightarrow> token | ApiError message \<Rightarrow> None)"

text \<open>The scenario of the pagination claim, in the words of the specification: the
  endpoint splits the children of a directory into pages of size \<open>P\<close>, in their order,
  and gives every page but the last a continuation token. A directory without children
  is one page without objects. \<open>tok\<close> names the tokens and \<open>at\<close> the arrival times.\<close>

function chunks :: "nat \<Rightarrow> 'a list \<Rightarrow> 'a list list" where
  "chunks P xs = (if P = 0 \<or> length xs \<le> P then [xs] else take P xs # chunks P (drop P xs))"
  by pat_completeness auto
termination
  by (relation "measure (\<lambda>(P, xs). length xs)") auto

declare chunks.simps [simp del]

fun serve :: "nat \<Rightarrow> (nat \<Rightarrow> string) \<Rightarrow> (nat \<Rightarrow> int) \<Rightarrow> metadata list list \<Rightarrow> drive_reply list" where
  "serve i tok at [] = []"
| "serve i tok at [c] = [\<lparr> d_arrive = at i, d_status = 200, d_body = FileList c None \<rparr>]"
| "serve i tok at (c # d # cs) =
     \<lparr> d_arrive = at i, d_status = 200, d_body = FileList c (Some (tok i)) \<rparr> # serve (Suc i) tok at (d # cs)"

text \<open>What can happen to an instance after its construction: the caller uses the facade
  (\<^verbatim>\<open>authorize\<close>, \<^verbatim>\<open>index\<close>, and the \<^verbatim>\<open>list\<close> and \<^verbatim>\<open>raw\<close> capabilities of the
  entries it has obtained), and the world moves (time passes, the endpoints will answer
  differently). A history is a list of such events, run in order.\<close>

datatype event =
    Authorize
  | Index string
  | ListChildren string
  | ReadRaw string string
  | WorldMoves int "token_reply list" "drive_reply list" "media_reply list"

fun perform :: "event \<Rightarrow> GoogleDrive \<Rightarrow> GoogleDrive" where
  "perform Authorize s = snd (authorize s)"
| "perform (Index p) s = snd (index p s)"
| "perform (ListChildren ident) s = snd (list_children ident s)"
| "perform (ReadRaw ident byte_range) s = snd (getRawData ident byte_range s)"
| "perform (WorldMoves t ts ds ms) s =
     s\<lparr>now := t, token_replies := ts, drive_replies := ds, media_replies := ms\<rparr>"

definition run :: "event list \<Rightarrow> GoogleDrive \<Rightarrow> GoogleDrive" where
  "run history s = foldl (\<lambda>s e. perform e s) s history"

text \<open>The sentinel object that the constructor seeds under the root path.\<close>

definition root_folder :: "DriveOptions \<Rightarrow> metadata" where
  "root_folder opts =
     \<lparr> id' = (case root_id opts of None \<Rightarrow> ''root'' | Some r \<Rightarrow> if r = [] then ''root'' else r),
       mimeType = FOLDER_TYPE, attrs = [] \<rparr>"

text \<open>The cache key in the words of claim C6: the normalised path with the percent-escapes
  of each segment decoded (none when a segment does not decode).\<close>

fun decode_all :: "string list \<Rightarrow> string list option" where
  "decode_all [] = Some []"
| "decode_all (n # ns) =
     (case decodeURIComponent n of
        None \<Rightarrow> None
      | Some d \<Rightarrow> map_option (Cons d) (decode_all ns))"

definition spec_cache_key :: "string \<Rightarrow> string option" where
  "spec_cache_key p = map_option path_key (decode_all (segments p))"

subsection \<open>Concrete instances\<close>

definition example_options :: DriveOptions where
  "example_options =
     \<lparr> client_id = ''id'', client_secret = ''secret'', refresh_token = ''refresh'',
       root_id = None, access_token = None, expires_on = None, logger = None \<rparr>"

definition granting_world :: world where
  "granting_world =
     \<lparr> now = 1000,
       token_replies = [\<lparr> t_arrive = 1200, t_status = 200, t_body = Granted ''ya29.a'' 3600 \<rparr>,
                        \<lparr> t_arrive = 3400000, t_status = 200, t_body = Granted ''ya29.b'' 3600 \<rparr>],
       drive_replies = [], media_replies = [], sent = [] \<rparr>"

definition refusing_world :: world where
  "refusing_world =
     \<lparr> now = 1000,
       token_replies = [\<lparr> t_arrive = 1200, t_status = 400, t_body = Refused ''Bad Request'' \<rparr>],
       drive_replies = [], media_replies = [], sent = [] \<rparr>"

definition authorized_options :: DriveOptions where
  "authorized_options =
     \<lparr> client_id = ''id'', client_secret = ''secret'', refresh_token = ''refresh'',
       root_id = Some ''root'', access_token = Some ''ya29.a'', expires_on = Some 3301200,
       logger = None \<rparr>"

definition report_pdf :: metadata where
  "report_pdf = \<lparr> id' = ''f1'', mimeType = ''application/pdf'', attrs = [(''name'', ''report.pdf'')] \<rparr>"

definition throttle :: "int \<Rightarrow> drive_reply" where
  "throttle t = \<lparr> d_arrive = t, d_status = 403, d_body = ApiError ''User Rate Limit Exceeded. Retry later'' \<rparr>"

definition throttled_world :: world where
  "throttled_world =
     \<lparr> now = 2000, token_replies = [],
       drive_replies = [throttle 2100, throttle 2200,
                        \<lparr> d_arrive = 2300, d_status = 200, d_body = FileList [report_pdf] None \<rparr>],
       media_replies = [], sent = [] \<rparr>"

definition notes_txt :: metadata where
  "notes_txt = \<lparr> id' = ''f2'', mimeType = ''text/plain'', attrs = [(''name'', ''notes.txt'')] \<rparr>"

definition two_page_world :: world where
  "two_page_world =
     \<lparr> now = 2000, token_replies = [],
       drive_replies = serve 0 (\<lambda>i. ''next'') (\<lambda>i. 2100) (chunks 1 [report_pdf, notes_txt]),
       media_replies = [], sent = [] \<rparr>"

definition empty_folder_world :: world where
  "empty_folder_world =
     \<lparr> now = 2000, token_replies = [],
       drive_replies = serve 0 (\<lambda>i. ''next'') (\<lambda>i. 2100) (chunks 100 []),
       media_replies = [], sent = [] \<rparr>"

definition photos :: metadata where
  "photos = \<lparr> id' = ''d1'', mimeType = FOLDER_TYPE, attrs = [(''name'', ''photos'')] \<rparr>"

definition page :: "int \<Rightarrow> metadata list \<Rightarrow> drive_reply" where
  "page t fs = \<lparr> d_arrive = t, d_status = 200, d_body = FileList fs None \<rparr>"

definition lonely_world :: world where
  "lonely_world =
     \<lparr> now = 2000, token_replies = [],
       drive_replies = [page 2100 [], page 2200 []],
       media_replies = [], sent = [] \<rparr>"

definition photos_world :: world where
  "photos_world =
     \<lparr> now = 2000, token_replies = [],
       drive_replies = [page 2100 [photos], page 2200 [], page 2300 []],
       media_replies = [], sent = [] \<rparr>"

text \<open>The instance after \<^verbatim>\<open>photos\<close> has been resolved in that world.\<close>

definition photos_resolved :: GoogleDrive where
  "photos_resolved =
     (constructor authorized_options photos_world)
       \<lparr>now := 2100, drive_replies := [page 2200 [], page 2300 []],
         sent := [drive_request (metadata_query ''root'' ''photos'') authorized_options],
         pathCache := (pathCache (constructor authorized_options photos_world))(''/photos/'' \<mapsto> Some photos)\<rparr>"

text \<open>The instance after \<^verbatim>\<open>a\<close> has been looked for, in vain, in the world without
  files.\<close>

definition lonely_resolved :: GoogleDrive where
  "lonely_resolved =
     (constructor authorized_options lonely_world)
       \<lparr>now := 2100, drive_replies := [page 2200 []],
         sent := [drive_request (metadata_query ''root'' ''a'') authorized_options],
         pathCache := (pathCache (constructor authorized_options lonely_world))(''/a/'' \<mapsto> None)\<rparr>"

text \<open>An instance whose root identifier names no folder: the endpoint answers the query
  under it with the status 404.\<close>

definition misrooted_options :: DriveOptions where
  "misrooted_options =
     \<lparr> client_id = ''id'', client_secret = ''secret'', refresh_token = ''refresh'',
       root_id = Some ''trashed-folder'', access_token = Some ''ya29.a'', expires_on = Some 3301200,
       logger = None \<rparr>"

definition gone_world :: world where
  "gone_world =
     \<lparr> now = 2000, token_replies = [],
       drive_replies = [\<lparr> d_arrive = 2100, d_status = 404, d_body = ApiError ''File not found: .'' \<rparr>],
       media_replies = [], sent = [] \<rparr>"

definition gone_failed :: GoogleDrive where
  "gone_failed =
     (constructor misrooted_options gone_world)
       \<lparr>now := 2100, drive_replies := [],
         sent := [drive_request (metadata_query ''trashed-folder'' ''a'') misrooted_options]\<rparr>"

text \<open>A world where the folder \<^verbatim>\<open>photos\<close> holds one picture: the endpoint answers the
  query for \<^verbatim>\<open>photos\<close>, then the listing of the folder, then the query for the
  picture.\<close>

definition cat_jpg :: metadata where
  "cat_jpg = \<lparr> id' = ''f3'', mimeType = ''image/jpeg'', attrs = [(''name'', ''cat.jpg'')] \<rparr>"

definition album_world :: world where
  "album_world =
     \<lparr> now = 2000, token_replies = [],
       drive_replies = [page 2100 [photos], page 2200 [cat_jpg], page 2300 [cat_jpg]],
       media_replies = [], sent = [] \<rparr>"

definition album_resolved :: GoogleDrive where
  "album_resolved =
     (constructor authorized_options album_world)
       \<lparr>now := 2100, drive_replies := [page 2200 [cat_jpg], page 2300 [cat_jpg]],
         sent := [drive_request (metadata_query ''root'' ''photos'') authorized_options],
         pathCache := (pathCache (constructor authorized_options album_world))(''/photos/'' \<mapsto> Some photos)\<rparr>"

definition album_listed :: GoogleDrive where
  "album_listed =
     album_resolved
       \<lparr>now := 2200, drive_replies := [page 2300 [cat_jpg]],
         sent := sent album_resolved @ [drive_request (list_query ''d1'') authorized_options]\<rparr>"

text \<open>Two invariants of the path cache. A list of segments is proper when each is non-empty
  and free of separators, as the segments of a normalised path are. The cache has its
  ancestors when every key with an object has an object under the key of its parent.\<close>

definition proper :: "string list \<Rightarrow> bool" where
  "proper xs = (\<forall>x \<in> set xs. x \<noteq> [] \<and> CHR ''/'' \<notin> set x)"

definition ancestors_cached :: "(string \<rightharpoonup> metadata option) \<Rightarrow> bool" where
  "ancestors_cached c =
     (\<forall>xs n. proper (xs @ [n]) \<longrightarrow> cache_get c (path_key (xs @ [n])) \<noteq> None
             \<longrightarrow> cache_get c (path_key xs) \<noteq> None)"


text \<open>How the reader of a filter string takes an escaped name: a backslash before a quote
  stands for the quote.\<close>

fun unescape_quotes :: "string \<Rightarrow> string" where
  "unescape_quotes (c # d # cs) =
     (if c = backslash \<and> d = squote then squote # unescape_quotes cs
      else c # unescape_quotes (d # cs))"
| "unescape_quotes cs = cs"

text \<open>A world for the path \<^verbatim>\<open>photos/it%27s\<close>: the endpoint answers the query for
  \<^verbatim>\<open>photos\<close>, then the query for the file in it.\<close>

definition its_txt :: metadata where
  "its_txt = \<lparr> id' = ''f4'', mimeType = ''text/plain'',
               attrs = [(''name'', [CHR ''i'', CHR ''t'', squote, CHR ''s''])] \<rparr>"

definition quoted_world :: world where
  "quoted_world =
     \<lparr> now = 2000, token_replies = [],
       drive_replies = [page 2100 [photos], page 2200 [its_txt]],
       media_replies = [], sent = [] \<rparr>"

definition quoted_parent :: GoogleDrive where
  "quoted_parent =
     (constructor authorized_options quoted_world)
       \<lparr>now := 2100, drive_replies := [page 2200 [its_txt]],
         sent := [drive_request (metadata_query ''root'' ''photos'') authorized_options],
         pathCache := (pathCache (constructor authorized_options quoted_world))(''/photos/'' \<mapsto> Some photos)\<rparr>"

text \<open>The instance after \<^verbatim>\<open>photos/b/c\<close> has been looked for on a new instance in the
  world of \<^verbatim>\<open>photos\<close>: the folder was found, \<^verbatim>\<open>b\<close> was not.\<close>

definition b_missing :: GoogleDrive where
  "b_missing =
     photos_resolved
       \<lparr>now := 2200, drive_replies := [page 2300 []],
         sent := sent photos_resolved @ [drive_request (metadata_query ''d1'' ''b'') authorized_options],
         pathCache := (pathCache photos_resolved)(''/photos/b/'' \<mapsto> None)\<rparr>"

section \<open>The token manager: one call\<close>

lemma authorize_fresh:
  "expires_on (options s) = Some e \<Longrightarrow> e \<noteq> 0 \<Longrightarrow> now s < e \<Longrightarrow> authorize s = (Inr (), s)"
  by (simp add: authorize_def)

lemma authorize_not_expired: "\<not> expired s \<Longrightarrow> authorize s = (Inr (), s)"
  by (auto simp: authorize_def expired_def split: option.splits)

lemma authorize_granted:
  "expired s \<Longrightarrow> token_replies s = r # rs \<Longrightarrow> t_body r = Granted token lifetime \<Longrightarrow>
   authorize s =
     (Inr (), s\<lparr>now := t_arrive r, token_replies := rs, sent := sent s @ [token_request (options s)],
               options := (options s)\<lparr>expires_on := Some (t_arrive r + (lifetime - 300) * 1000),
                                      access_token := Some token\<rparr>\<rparr>)"
  by (auto simp: authorize_def expired_def fetch_token_def split: option.splits)

lemma authorize_refused:
  "expired s \<Longrightarrow> token_replies s = r # rs \<Longrightarrow> t_body r = Refused description \<Longrightarrow>
   authorize s =
     (Inl (Thrown (t_status r) description),
      s\<lparr>now := t_arrive r, token_replies := rs, sent := sent s @ [token_request (options s)]\<rparr>)"
  by (auto simp: authorize_def expired_def fetch_token_def split: option.splits)

lemma authorize_no_reply:
  "expired s \<Longrightarrow> token_replies s = [] \<Longrightarrow>
   authorize s = (Inl NoReply, s\<lparr>sent := sent s @ [token_request (options s)]\<rparr>)"
  by (auto simp: authorize_def expired_def fetch_token_def split: option.splits)

lemma is_token_fetch_token_request: "is_token_fetch (token_request opts)"
  by (simp add: is_token_fetch_def token_request_def)

lemma authorize_exchanges:
  "exchanges (snd (authorize s)) = exchanges s + (if expired s then 1 else 0)"
proof (cases "expired s")
  case False
  then show ?thesis
    by (simp add: authorize_not_expired)
next
  case True
  show ?thesis
  proof (cases "token_replies s")
    case Nil
    with True show ?thesis
      by (simp add: authorize_no_reply exchanges_def is_token_fetch_token_request)
  next
    case (Cons r rs)
    with True show ?thesis
      by (cases "t_body r")
         (simp_all add: authorize_granted authorize_refused exchanges_def is_token_fetch_token_request)
  qed
qed

lemma authorize_options_changed:
  assumes "options (snd (authorize s)) \<noteq> options s"
  shows "expired s \<and> (\<exists>r rs token lifetime. token_replies s = r # rs \<and> t_body r = Granted token lifetime)"
proof -
  have e: "expired s"
  proof (rule ccontr)
    assume "\<not> expired s"
    then have "authorize s = (Inr (), s)"
      by (rule authorize_not_expired)
    with assms show False
      by simp
  qed
  show ?thesis
  proof (cases "token_replies s")
    case Nil
    with e assms show ?thesis
      by (simp add: authorize_no_reply)
  next
    case (Cons r rs)
    with e assms show ?thesis
      by (cases "t_body r") (simp_all add: authorize_refused)
  qed
qed


section \<open>The query executor: one call\<close>

lemma token_outlasts_not_expired: "token_outlasts s rs \<Longrightarrow> \<not> expired s"
  by (auto simp: token_outlasts_def expired_def split: option.splits)

lemma token_outlasts_answered:
  "token_outlasts s (r # rs) \<Longrightarrow> token_outlasts (answered params r rest s) rs"
  by (auto simp: token_outlasts_def answered_def split: option.splits)

lemma request_authorized:
  assumes "authorize s = (Inr (), s1)" and "drive_replies s1 = r # rs"
  shows "request params s =
     (case d_body r of
        ApiError message \<Rightarrow>
          if prefix ''User Rate Limit Exceeded'' message then request params (answered params r rs s1)
          else (Inl (Thrown (d_status r) message), answered params r rs s1)
      | FileList fs token \<Rightarrow> (Inr \<lparr> files = fs, nextPageToken = token \<rparr>, answered params r rs s1))"
  using assms by (simp add: request.simps [of params s] fetch_drive_def answered_def split: drive_json.splits)

lemma request_unauthorized:
  "authorize s = (Inl e, s1) \<Longrightarrow> request params s = (Inl e, s1)"
  by (simp add: request.simps [of params s])

lemma request_unanswered:
  "authorize s = (Inr (), s1) \<Longrightarrow> drive_replies s1 = [] \<Longrightarrow>
   request params s = (Inl NoReply, s1\<lparr>sent := sent s1 @ [drive_request params (options s1)]\<rparr>)"
  by (simp add: request.simps [of params s] fetch_drive_def)

lemma request_retries:
  assumes "drive_replies s = limited @ r # rest"
    and "\<forall>x \<in> set limited. rate_limited x"
    and "\<not> rate_limited r"
    and "token_outlasts s limited"
  shows "request params s =
           (case d_body r of
              FileList fs token \<Rightarrow> Inr \<lparr> files = fs, nextPageToken = token \<rparr>
            | ApiError message \<Rightarrow> Inl (Thrown (d_status r) message),
            s\<lparr>now := d_arrive r, drive_replies := rest,
              sent := sent s @ replicate (length limited + 1) (drive_request params (options s))\<rparr>)"
  using assms
proof (induction limited arbitrary: s)
  case Nil
  have a: "authorize s = (Inr (), s)"
    using Nil.prems(4) by (simp add: authorize_not_expired token_outlasts_not_expired)
  show ?case
    using Nil.prems(1,3) request_authorized [OF a, of r rest params]
    by (auto simp: rate_limited_def answered_def split: drive_json.splits)
next
  case (Cons x limited)
  have a: "authorize s = (Inr (), s)"
    using Cons.prems(4) by (simp add: authorize_not_expired token_outlasts_not_expired)
  let ?s2 = "answered params x (limited @ r # rest) s"
  have step: "request params s = request params ?s2"
    using Cons.prems(1,2) request_authorized [OF a, of x "limited @ r # rest" params]
    by (auto simp: rate_limited_def split: drive_json.splits)
  have "request params ?s2 =
           (case d_body r of
              FileList fs token \<Rightarrow> Inr \<lparr> files = fs, nextPageToken = token \<rparr>
            | ApiError message \<Rightarrow> Inl (Thrown (d_status r) message),
            ?s2\<lparr>now := d_arrive r, drive_replies := rest,
              sent := sent ?s2 @ replicate (length limited + 1) (drive_request params (options ?s2))\<rparr>)"
  proof (rule Cons.IH)
    show "drive_replies ?s2 = limited @ r # rest"
      by (simp add: answered_def)
    show "\<forall>x \<in> set limited. rate_limited x"
      using Cons.prems(2) by simp
    show "\<not> rate_limited r"
      by (rule Cons.prems(3))
    show "token_outlasts ?s2 limited"
      using Cons.prems(4) by (rule token_outlasts_answered)
  qed
  then show ?case
    using step by (simp add: answered_def replicate_app_Cons_same)
qed


section \<open>The pagination walker: pages\<close>

lemma set_pageToken_twice: "set_pageToken t (set_pageToken t' params) = set_pageToken t params"
  by (induction params) (auto simp: set_pageToken_def)

lemma with_token_twice: "token_set t \<Longrightarrow> with_token t (with_token t' params) = with_token t params"
  by (auto simp: with_token_def token_set_def set_pageToken_twice split: option.splits)

lemma with_token_None: "with_token None params = params"
  by (simp add: with_token_def)

lemma listFiles_loop_page:
  assumes "request (with_token t params) s = (Inr result, s1)"
  shows "listFiles_loop t params acc s =
           (if token_set (nextPageToken result)
            then listFiles_loop (nextPageToken result) (with_token t params) (acc @ files result) s1
            else (Inr (acc @ files result), s1))"
  using assms by (simp add: listFiles_loop.simps [of t params acc s] Let_def)

lemma listFiles_loop_failed:
  assumes "request (with_token t params) s = (Inl e, s1)"
  shows "listFiles_loop t params acc s = (Inl e, s1)"
  using assms by (simp add: listFiles_loop.simps [of t params acc s] Let_def)

lemma request_page:
  assumes "drive_replies s = r # rest" and "is_listing r" and "\<not> expired s"
  shows "request params s =
           (Inr \<lparr> files = page_files r, nextPageToken = page_token r \<rparr>, answered params r rest s)"
  using assms request_authorized [OF authorize_not_expired [OF assms(3)] assms(1), of params]
  by (auto simp: is_listing_def page_files_def page_token_def split: drive_json.splits)

lemma listFiles_loop_pages:
  assumes "drive_replies s = pages @ final # rest"
    and "\<forall>x \<in> set pages. is_listing x \<and> token_set (page_token x)"
    and "is_listing final" and "\<not> token_set (page_token final)"
    and "token_outlasts s pages"
  shows "listFiles_loop t params acc s =
           (Inr (acc @ concat (map page_files (pages @ [final]))),
            s\<lparr>now := d_arrive final, drive_replies := rest,
              sent := sent s @ map (\<lambda>t. drive_request (with_token t params) (options s))
                                   (t # map page_token pages)\<rparr>)"
  using assms
proof (induction pages arbitrary: s t params acc)
  case Nil
  have "\<not> expired s"
    using Nil.prems(5) by (rule token_outlasts_not_expired)
  then have "request (with_token t params) s =
      (Inr \<lparr> files = page_files final, nextPageToken = page_token final \<rparr>,
       answered (with_token t params) final rest s)"
    using Nil.prems(1,3) by (intro request_page) simp_all
  from listFiles_loop_page [OF this] Nil.prems(4)
  show ?case
    by (simp add: answered_def)
next
  case (Cons p pages)
  let ?s1 = "answered (with_token t params) p (pages @ final # rest) s"
  have "\<not> expired s"
    using Cons.prems(5) by (rule token_outlasts_not_expired)
  then have "request (with_token t params) s =
      (Inr \<lparr> files = page_files p, nextPageToken = page_token p \<rparr>, ?s1)"
    using Cons.prems(1,2) by (intro request_page) simp_all
  from listFiles_loop_page [OF this] Cons.prems(2)
  have step: "listFiles_loop t params acc s =
      listFiles_loop (page_token p) (with_token t params) (acc @ page_files p) ?s1"
    by simp
  have "listFiles_loop (page_token p) (with_token t params) (acc @ page_files p) ?s1 =
           (Inr ((acc @ page_files p) @ concat (map page_files (pages @ [final]))),
            ?s1\<lparr>now := d_arrive final, drive_replies := rest,
              sent := sent ?s1 @ map (\<lambda>u. drive_request (with_token u (with_token t params)) (options ?s1))
                                   (page_token p # map page_token pages)\<rparr>)"
  proof (rule Cons.IH)
    show "drive_replies ?s1 = pages @ final # rest"
      by (simp add: answered_def)
    show "\<forall>x \<in> set pages. is_listing x \<and> token_set (page_token x)"
      using Cons.prems(2) by simp
    show "is_listing final" "\<not> token_set (page_token final)"
      by (rule Cons.prems)+
    show "token_outlasts ?s1 pages"
      using Cons.prems(5) by (rule token_outlasts_answered)
  qed
  moreover have "map (\<lambda>u. drive_request (with_token u (with_token t params)) (options s))
                   (page_token p # map page_token pages)
               = map (\<lambda>u. drive_request (with_token u params) (options s))
                   (page_token p # map page_token pages)"
    using Cons.prems(2) by (auto simp: with_token_twice)
  ultimately show ?case
    using step by (simp add: answered_def)
qed

lemma concat_chunks: "concat (chunks P xs) = xs"
proof (induction P xs rule: chunks.induct)
  case (1 P xs)
  then show ?case
    by (cases "P = 0 \<or> length xs \<le> P") (simp_all add: chunks.simps [of P xs])
qed

lemma pages_needed_small:
  assumes "0 < P" and "n \<le> P"
  shows "max 1 ((n + P - 1) div P) = (1::nat)"
proof -
  have "n + P - 1 < 2 * P"
    using assms by linarith
  then have "(n + P - 1) div P < 2"
    by (rule less_mult_imp_div_less)
  then have "(n + P - 1) div P \<le> 1"
    by linarith
  then show ?thesis
    by (rule max_absorb1)
qed

lemma pages_needed_step:
  assumes "0 < P" and "P < n"
  shows "max 1 ((n + P - 1) div P) = Suc (max 1 ((n - P + P - 1) div P))"
proof -
  have e1: "n + P - 1 = (n - 1) + P"
    using assms by linarith
  have e2: "n - P + P - 1 = n - 1"
    using assms by linarith
  have a: "((n - 1) + P) div P = Suc ((n - 1) div P)"
    using assms(1) div_add_self2 [of P "n - 1"] by linarith
  have "P \<le> n - 1"
    using assms by linarith
  then have "0 < (n - 1) div P"
    using assms(1) by (simp only: div_greater_zero_iff)
  then have c: "1 \<le> (n - 1) div P"
    by linarith
  have l: "max 1 ((n + P - 1) div P) = Suc ((n - 1) div P)"
    unfolding e1 a by (rule max_absorb2) linarith
  have r: "max 1 ((n - P + P - 1) div P) = (n - 1) div P"
    unfolding e2 using c by (rule max_absorb2)
  show ?thesis
    unfolding l r ..
qed

lemma length_chunks: "0 < P \<Longrightarrow> length (chunks P xs) = max 1 ((length xs + P - 1) div P)"
proof (induction P xs rule: chunks.induct)
  case (1 P xs)
  show ?case
  proof (cases "length xs \<le> P")
    case True
    then have "chunks P xs = [xs]"
      by (simp add: chunks.simps [of P xs])
    then show ?thesis
      using pages_needed_small [OF "1.prems" True] by simp
  next
    case False
    then have "chunks P xs = take P xs # chunks P (drop P xs)"
      using "1.prems" by (simp add: chunks.simps [of P xs])
    then have "length (chunks P xs) = Suc (length (chunks P (drop P xs)))"
      by simp
    also have "length (chunks P (drop P xs)) = max 1 ((length (drop P xs) + P - 1) div P)"
      using "1.IH" False "1.prems" by blast
    also have "length (drop P xs) = length xs - P"
      by simp
    also have "Suc (max 1 ((length xs - P + P - 1) div P)) = max 1 ((length xs + P - 1) div P)"
      using pages_needed_step [of P "length xs"] False "1.prems" by linarith
    finally show ?thesis .
  qed
qed

lemma chunks_not_Nil: "chunks P xs \<noteq> []"
  by (simp add: chunks.simps [of P xs])

lemma serve_shape:
  assumes "cs \<noteq> []" and "\<forall>i. tok i \<noteq> []"
  shows "\<exists>pages final. serve i tok at cs = pages @ [final]
          \<and> (\<forall>x \<in> set pages. is_listing x \<and> token_set (page_token x))
          \<and> is_listing final \<and> \<not> token_set (page_token final)"
  using assms
proof (induction i tok at cs rule: serve.induct)
  case (1 i tok at)
  then show ?case by simp
next
  case (2 i tok at c)
  show ?case
    by (rule exI [of _ "[]"]) (simp add: is_listing_def page_token_def token_set_def)
next
  case (3 i tok at c d cs)
  then obtain pages final where
    "serve (Suc i) tok at (d # cs) = pages @ [final]"
    "\<forall>x \<in> set pages. is_listing x \<and> token_set (page_token x)"
    "is_listing final" "\<not> token_set (page_token final)"
    by auto
  with "3.prems" show ?case
    by (intro exI [of _ "\<lparr> d_arrive = at i, d_status = 200, d_body = FileList c (Some (tok i)) \<rparr> # pages"]
          exI [of _ final])
       (simp add: is_listing_def page_token_def token_set_def)
qed

lemma serve_files: "concat (map page_files (serve i tok at cs)) = concat cs"
  by (induction i tok at cs rule: serve.induct) (simp_all add: page_files_def)

lemma length_serve: "length (serve i tok at cs) = length cs"
  by (induction i tok at cs rule: serve.induct) simp_all


lemma stringify_list_query:
  "stringify (list_query ident) =
     ''pageSize=1000&q=''
       @ encodeURIComponent ([squote] @ ident @ [squote] @ '' in parents and trashed = false AND name != ''
                             @ [squote] @ ''.password'' @ [squote])
       @ ''&fields='' @ encodeURIComponent (''nextPageToken, files('' @ FILE_ATTRS @ '')'')
       @ ''&orderBy=folder%2C%20name''"
  by (simp add: stringify_def list_query_def encodeURIComponent_def unreserved_def hexdigit_def
      decimal.simps char_of_eq_iff)

lemma stringify_with_token:
  "x \<noteq> [] \<Longrightarrow> stringify (with_token (Some x) (list_query ident)) =
     ''pageToken='' @ encodeURIComponent x @ ''&'' @ stringify (list_query ident)"
  by (simp add: stringify_def list_query_def with_token_def set_pageToken_def encodeURIComponent_def
      unreserved_def)

lemma encoded_list_filter:
  "encodeURIComponent ([squote] @ ident @ [squote] @ '' in parents and trashed = false AND name != ''
                       @ [squote] @ ''.password'' @ [squote])
     = [squote] @ encodeURIComponent ident @ [squote]
         @ ''%20in%20parents%20and%20trashed%20%3D%20false%20AND%20name%20!%3D%20''
         @ [squote] @ ''.password'' @ [squote]"
  by (simp add: encodeURIComponent_def unreserved_def hexdigit_def char_of_eq_iff)

lemma encoded_list_fields:
  "encodeURIComponent (''nextPageToken, files('' @ FILE_ATTRS @ '')'')
     = ''nextPageToken%2C%20files(id%2C%20name%2C%20mimeType%2C%20size%2C%20modifiedTime%2C%20description%2C%20iconLink%2C%20thumbnailLink%2C%20imageMediaMetadata)''"
  by (simp add: encodeURIComponent_def unreserved_def hexdigit_def char_of_eq_iff FILE_ATTRS_def)

lemma encoded_plain: "encodeURIComponent ''root'' = ''root''" "encodeURIComponent ''next'' = ''next''"
  by (simp_all add: encodeURIComponent_def unreserved_def)

section \<open>Normalised paths\<close>

lemma js_split_not_Nil: "js_split p c \<noteq> []"
  by (induction p) (auto split: list.splits)

lemma js_split_Cons:
  "js_split (x # xs) c =
     (if x = c then [] # js_split xs c else (x # hd (js_split xs c)) # tl (js_split xs c))"
  using js_split_not_Nil [of xs c] by (cases "js_split xs c") simp_all

lemma js_split_free: "n \<in> set (js_split p c) \<Longrightarrow> c \<notin> set n"
proof (induction p arbitrary: n)
  case Nil
  then show ?case by simp
next
  case (Cons x xs)
  show ?case
  proof (cases "x = c")
    case True
    with Cons show ?thesis by auto
  next
    case False
    from js_split_not_Nil [of xs c] obtain w ws where w: "js_split xs c = w # ws"
      by (cases "js_split xs c") auto
    with Cons False show ?thesis by auto
  qed
qed

lemma collapse_slashes_key:
  "collapse_slashes (CHR ''/'' # p @ ''/'') = path_key (segments p)
   \<and> (\<forall>c. c \<noteq> CHR ''/'' \<longrightarrow>
        collapse_slashes (c # p @ ''/'') =
          c # hd (js_split p (CHR ''/'')) @ ''/''
            @ concat (map (\<lambda>n. n @ ''/'') (filter (\<lambda>n. n \<noteq> []) (tl (js_split p (CHR ''/''))))))"
proof (induction p)
  case Nil
  show ?case
    by (simp add: path_key_def segments_def)
next
  case (Cons d q)
  show ?case
  proof (cases "d = CHR ''/''")
    case True
    with Cons show ?thesis
      by (simp add: path_key_def segments_def)
  next
    case False
    from js_split_not_Nil [of q "CHR ''/''"] obtain w ws where "js_split q (CHR ''/'') = w # ws"
      by (cases "js_split q (CHR ''/'')") auto
    with Cons False show ?thesis
      by (simp add: path_key_def segments_def)
  qed
qed

lemma join_key: "join [''/'', p, ''/''] = path_key (segments p)"
  using collapse_slashes_key [of p] by (simp add: join_def)

lemma segments_proper: "n \<in> set (segments p) \<Longrightarrow> n \<noteq> [] \<and> CHR ''/'' \<notin> set n"
  by (auto simp: segments_def dest: js_split_free)

lemma js_split_word: "c \<notin> set w \<Longrightarrow> js_split w c = [w]"
  by (induction w) auto

lemma js_split_append: "c \<notin> set w \<Longrightarrow> js_split (w @ c # r) c = w # js_split r c"
  by (induction w) auto

lemma js_split_join_with:
  "segs \<noteq> [] \<Longrightarrow> \<forall>n \<in> set segs. c \<notin> set n \<Longrightarrow> js_split (join_with [c] segs) c = segs"
proof (induction "[c]" segs rule: join_with.induct)
  case 1
  then show ?case by simp
next
  case (2 x)
  then show ?case by (simp add: js_split_word)
next
  case (3 x y ys)
  then show ?case by (simp add: js_split_append)
qed

lemma concat_join_with:
  "segs \<noteq> [] \<Longrightarrow> concat (map (\<lambda>n. n @ [c]) segs) = join_with [c] segs @ [c]"
  by (induction "[c]" segs rule: join_with.induct) simp_all

lemma join_with_last:
  "segs \<noteq> [] \<Longrightarrow> \<forall>n \<in> set segs. n \<noteq> [] \<and> c \<notin> set n \<Longrightarrow>
   join_with [c] segs \<noteq> [] \<and> last (join_with [c] segs) \<noteq> c \<and> hd (join_with [c] segs) \<noteq> c"
proof (induction "[c]" segs rule: join_with.induct)
  case 1
  then show ?case by simp
next
  case (2 x)
  then show ?case
    by (cases x) (auto simp: last_in_set)
next
  case (3 x y ys)
  then show ?case
    by (cases x) auto
qed

lemma trim_key:
  assumes "segs \<noteq> []" and "\<forall>n \<in> set segs. n \<noteq> [] \<and> CHR ''/'' \<notin> set n"
  shows "trim (path_key segs) (CHR ''/'') = join_with ''/'' segs"
proof -
  let ?w = "join_with ''/'' segs"
  from join_with_last [OF assms] have w: "?w \<noteq> []" "last ?w \<noteq> CHR ''/''" "hd ?w \<noteq> CHR ''/''"
    by simp_all
  have k: "path_key segs = CHR ''/'' # ?w @ ''/''"
    using concat_join_with [OF assms(1), of "CHR ''/''"] by (simp add: path_key_def)
  have "dropWhile (\<lambda>x. x = CHR ''/'') (path_key segs) = ?w @ ''/''"
    using w by (cases ?w) (simp_all add: k)
  moreover have "dropWhile (\<lambda>x. x = CHR ''/'') (rev (?w @ ''/'')) = rev ?w"
    using w by (cases "rev ?w") (simp_all add: hd_rev)
  ultimately show ?thesis
    by (simp add: trim_def)
qed

lemma names_of_key:
  assumes "segs \<noteq> []" and "\<forall>n \<in> set segs. n \<noteq> [] \<and> CHR ''/'' \<notin> set n"
  shows "js_split (trim (path_key segs) (CHR ''/'')) (CHR ''/'') = segs"
  using assms by (simp add: trim_key js_split_join_with)

lemma names_of_root: "js_split (trim (path_key []) (CHR ''/'')) (CHR ''/'') = [[]]"
  by (simp add: path_key_def trim_def)


section \<open>The path resolver: one segment\<close>

lemma authorize_pathCache: "pathCache (snd (authorize s)) = pathCache s"
  by (auto simp: authorize_def fetch_token_def split: list.splits token_json.splits)

lemma request_pathCache: "pathCache (snd (request params s)) = pathCache s"
proof (induction params s rule: request.induct)
  case (1 params s)
  obtain a s1 where auth: "authorize s = (a, s1)"
    by (cases "authorize s")
  have c1: "pathCache s1 = pathCache s"
    using authorize_pathCache [of s] auth by simp
  show ?case
  proof (cases a)
    case (Inl e)
    with auth c1 show ?thesis
      by (simp add: request_unauthorized)
  next
    case (Inr u)
    with auth have ok: "authorize s = (Inr (), s1)"
      by simp
    show ?thesis
    proof (cases "drive_replies s1")
      case Nil
      with ok c1 show ?thesis
        by (simp add: request_unanswered)
    next
      case (Cons r rs)
      note step = request_authorized [OF ok Cons, of params]
      have c2: "pathCache (answered params r rs s1) = pathCache s"
        using c1 by (simp add: answered_def)
      show ?thesis
      proof (cases "d_body r")
        case (FileList fs token)
        with step c2 show ?thesis
          by simp
      next
        case (ApiError message)
        show ?thesis
        proof (cases "prefix ''User Rate Limit Exceeded'' message")
          case False
          with step ApiError c2 show ?thesis
            by simp
        next
          case True
          have fd: "(Some r, answered params r rs s1) = fetch_drive (drive_request params (options s1)) s1"
            using Cons by (simp add: fetch_drive_def answered_def)
          have "pathCache (snd (request params (answered params r rs s1))) = pathCache (answered params r rs s1)"
            using "1.IH" [OF ok [symmetric] refl fd refl ApiError True] .
          with step ApiError True c2 show ?thesis
            by simp
        qed
      qed
    qed
  qed
qed

lemma walk_hit:
  "cache_get (pathCache s) (fullPath @ n @ ''/'') = Some m \<Longrightarrow>
   walk (n # rest) fullPath parent s = walk rest (fullPath @ n @ ''/'') (Some m) s"
  by (simp add: Let_def)

lemma walk_miss:
  assumes "cache_get (pathCache s) (fullPath @ n @ ''/'') = None"
    and "decodeURIComponent n = Some d"
  shows "walk (n # rest) fullPath (Some m) s =
     (case request (metadata_query (id' m) (escape_quotes d)) s of
        (Inl e, s1) \<Rightarrow> (Inl e, s1)
      | (Inr result, s1) \<Rightarrow>
          (case first_file result of
             None \<Rightarrow> (Inr (), s1\<lparr>pathCache := (pathCache s1)(fullPath @ n @ ''/'' \<mapsto> None)\<rparr>)
           | Some f \<Rightarrow> walk rest (fullPath @ n @ ''/'') (Some f)
                        (s1\<lparr>pathCache := (pathCache s1)(fullPath @ n @ ''/'' \<mapsto> Some f)\<rparr>)))"
  using assms
  by (simp add: Let_def query_segment_def cache_get_def split: prod.splits sum.splits option.splits)

lemma walk_cached_prefix:
  assumes "\<forall>k < length pre. cache_get (pathCache s) (fullPath @ concat (map (\<lambda>n. n @ ''/'') (take (Suc k) pre))) \<noteq> None"
  shows "walk (pre @ rest) fullPath parent s =
           walk rest (fullPath @ concat (map (\<lambda>n. n @ ''/'') pre))
             (if pre = [] then parent
              else cache_get (pathCache s) (fullPath @ concat (map (\<lambda>n. n @ ''/'') pre))) s"
  using assms
proof (induction pre arbitrary: fullPath parent)
  case Nil
  then show ?case by simp
next
  case (Cons n pre)
  from Cons.prems have "cache_get (pathCache s) (fullPath @ concat (map (\<lambda>n. n @ ''/'') (take (Suc 0) (n # pre)))) \<noteq> None"
    by blast
  then obtain m where m: "cache_get (pathCache s) (fullPath @ n @ ''/'') = Some m"
    by auto
  have "\<forall>k < length pre. cache_get (pathCache s)
          ((fullPath @ n @ ''/'') @ concat (map (\<lambda>n. n @ ''/'') (take (Suc k) pre))) \<noteq> None"
  proof (intro allI impI)
    fix k assume "k < length pre"
    then have "Suc k < length (n # pre)" by simp
    with Cons.prems have "cache_get (pathCache s)
        (fullPath @ concat (map (\<lambda>n. n @ ''/'') (take (Suc (Suc k)) (n # pre)))) \<noteq> None"
      by blast
    then show "cache_get (pathCache s)
          ((fullPath @ n @ ''/'') @ concat (map (\<lambda>n. n @ ''/'') (take (Suc k) pre))) \<noteq> None"
      by simp
  qed
  from Cons.IH [OF this, of "Some m"] m show ?case
    by (simp add: walk_hit del: walk.simps)
qed

lemma getMetadata_key:
  "getMetadata p s =
     (case (if cache_get (pathCache s) (path_key (segments p)) = None
            then walk (js_split (trim (path_key (segments p)) (CHR ''/'')) (CHR ''/'')) ''/''
                   (cache_get (pathCache s) ''/'') s
            else (Inr (), s)) of
        (Inl e, s1) \<Rightarrow> (Inl e, s1)
      | (Inr _, s1) \<Rightarrow> (Inr (cache_get (pathCache s1) (path_key (segments p))), s1))"
  by (simp add: getMetadata_def Let_def join_key)

lemma getMetadata_hit:
  "cache_get (pathCache s) (path_key (segments p)) = Some m \<Longrightarrow> getMetadata p s = (Inr (Some m), s)"
  by (simp add: getMetadata_key)

lemma getMetadata_found_cached:
  assumes "fst (getMetadata p s) = Inr (Some m)"
  shows "cache_get (pathCache (snd (getMetadata p s))) (path_key (segments p)) = Some m"
  using assms by (auto simp: getMetadata_key split: if_splits prod.splits sum.splits)

lemma getMetadata_missing_uncached:
  assumes "fst (getMetadata p s) = Inr None"
  shows "cache_get (pathCache (snd (getMetadata p s))) (path_key (segments p)) = None"
  using assms by (auto simp: getMetadata_key split: if_splits prod.splits sum.splits)

lemma path_key_snoc: "path_key (pre @ [n]) = path_key pre @ n @ ''/''"
  by (simp add: path_key_def)

lemma path_key_longer: "post \<noteq> [] \<Longrightarrow> path_key (pre @ n # post) \<noteq> path_key (pre @ [n])"
proof -
  assume "post \<noteq> []"
  then have "length (path_key (pre @ n # post)) > length (path_key (pre @ [n]))"
    by (cases post) (simp_all add: path_key_def)
  then show ?thesis
    by auto
qed

lemma getMetadata_step:
  assumes segs: "segments p = pre @ n # post"
    and cached: "\<forall>k < length pre. cache_get (pathCache s) (path_key (take (Suc k) pre)) \<noteq> None"
    and parent: "cache_get (pathCache s) (path_key pre) = Some m"
    and miss: "cache_get (pathCache s) (path_key (pre @ [n])) = None"
    and full: "cache_get (pathCache s) (path_key (pre @ n # post)) = None"
    and dec: "decodeURIComponent n = Some d"
  shows "getMetadata p s =
     (case request (metadata_query (id' m) (escape_quotes d)) s of
        (Inl e, s1) \<Rightarrow> (Inl e, s1)
      | (Inr result, s1) \<Rightarrow>
          (case first_file result of
             None \<Rightarrow> (Inr None, s1\<lparr>pathCache := (pathCache s1)(path_key (pre @ [n]) \<mapsto> None)\<rparr>)
           | Some f \<Rightarrow>
               (case walk post (path_key (pre @ [n])) (Some f)
                       (s1\<lparr>pathCache := (pathCache s1)(path_key (pre @ [n]) \<mapsto> Some f)\<rparr>) of
                  (Inl e, s2) \<Rightarrow> (Inl e, s2)
                | (Inr _, s2) \<Rightarrow> (Inr (cache_get (pathCache s2) (path_key (pre @ n # post))), s2))))"
proof -
  let ?names = "pre @ n # post"
  have proper: "\<forall>x \<in> set ?names. x \<noteq> [] \<and> CHR ''/'' \<notin> set x"
    using segments_proper [of _ p] segs by metis
  have names: "js_split (trim (path_key ?names) (CHR ''/'')) (CHR ''/'') = ?names"
    using proper by (intro names_of_key) simp_all
  have pre: "walk (pre @ n # post) ''/'' (cache_get (pathCache s) ''/'') s =
             walk (n # post) (path_key pre) (Some m) s"
  proof -
    have "\<forall>k < length pre. cache_get (pathCache s)
            (''/'' @ concat (map (\<lambda>n. n @ ''/'') (take (Suc k) pre))) \<noteq> None"
      using cached by (simp add: path_key_def)
    from walk_cached_prefix [OF this, of "n # post" "cache_get (pathCache s) ''/''"]
    show ?thesis
      using parent by (cases "pre = []") (simp_all add: path_key_def del: walk.simps)
  qed
  have miss': "cache_get (pathCache s) (path_key pre @ n @ ''/'') = None"
    using miss by (simp add: path_key_snoc)
  note w = walk_miss [OF miss' dec, of post m]
  have final: "cache_get ((pathCache s1)(path_key (pre @ [n]) \<mapsto> None)) (path_key (pre @ n # post)) = None"
    if "pathCache s1 = pathCache s" for s1
  proof (cases "post = []")
    case True
    then show ?thesis by (simp add: cache_get_def)
  next
    case False
    then show ?thesis
      using full that path_key_longer [OF False, of pre n] by (simp add: cache_get_def)
  qed
  obtain a s1 where r: "request (metadata_query (id' m) (escape_quotes d)) s = (a, s1)"
    by (cases "request (metadata_query (id' m) (escape_quotes d)) s")
  have c: "pathCache s1 = pathCache s"
    using request_pathCache [of "metadata_query (id' m) (escape_quotes d)" s] r by simp
  show ?thesis
    using full names pre w r final [OF c]
    by (simp add: getMetadata_key segs path_key_snoc del: walk.simps
             split: sum.splits option.splits prod.splits)
qed


section \<open>Running the model on a concrete world\<close>

lemmas eval_simps = getMetadata_def join_def trim_def Let_def cache_get_def query_segment_def
  request.simps authorize_def fetch_drive_def decodeURIComponent_def first_file_def
  constructor_def authorized_options_def page_def hexval_def utf8_lead_def


section \<open>The path resolver: an empty answer\<close>

lemma getMetadata_photos: "getMetadata ''photos'' (constructor authorized_options photos_world) = (Inr (Some photos), photos_resolved)"
  by (simp add: eval_simps photos_world_def escape_quotes_def photos_resolved_def)

lemma getMetadata_lonely: "getMetadata ''a'' (constructor authorized_options lonely_world) = (Inr None, lonely_resolved)"
  by (simp add: eval_simps lonely_world_def escape_quotes_def lonely_resolved_def)

lemma getMetadata_gone:
  "getMetadata ''a'' (constructor misrooted_options gone_world)
     = (Inl (Thrown 404 ''File not found: .''), gone_failed)"
  by (simp add: getMetadata_def join_def trim_def Let_def cache_get_def query_segment_def
      request.simps authorize_def fetch_drive_def decodeURIComponent_def constructor_def
      misrooted_options_def gone_world_def gone_failed_def escape_quotes_def)

lemma length_path_key_take: "length (path_key (take k pre)) \<le> length (path_key pre)"
proof -
  have "concat (map (\<lambda>n. n @ ''/'') pre)
          = concat (map (\<lambda>n. n @ ''/'') (take k pre)) @ concat (map (\<lambda>n. n @ ''/'') (drop k pre))"
    by (metis append_take_drop_id concat_append map_append)
  then show ?thesis
    by (simp add: path_key_def)
qed

lemma path_key_take_neq: "path_key (take k pre) \<noteq> path_key (pre @ [n])"
proof -
  have "length (path_key (pre @ [n])) > length (path_key pre)"
    by (simp add: path_key_def)
  with length_path_key_take [of k pre] show ?thesis
    by (metis leD)
qed

lemma path_key_neq: "path_key pre \<noteq> path_key (pre @ [n])"
  using path_key_take_neq [of "length pre" pre n] by simp

lemma getMetadata_nothing_there:
  assumes "segments p = pre @ n # post"
    and "\<forall>k < length pre. cache_get (pathCache s) (path_key (take (Suc k) pre)) \<noteq> None"
    and "cache_get (pathCache s) (path_key pre) = Some m"
    and "cache_get (pathCache s) (path_key (pre @ [n])) = None"
    and "cache_get (pathCache s) (path_key (pre @ n # post)) = None"
    and "decodeURIComponent n = Some d"
    and "request (metadata_query (id' m) (escape_quotes d)) s = (Inr result, s1)"
    and "files result = []"
  shows "getMetadata p s = (Inr None, s1\<lparr>pathCache := (pathCache s1)(path_key (pre @ [n]) \<mapsto> None)\<rparr>)"
  using getMetadata_step [OF assms(1-6)] assms(7,8) by (simp add: first_file_def)

lemma marker_keeps_hypotheses:
  assumes "\<forall>k < length pre. cache_get (pathCache s) (path_key (take (Suc k) pre)) \<noteq> None"
    and "cache_get (pathCache s) (path_key pre) = Some m"
    and "pathCache s' = (pathCache s)(path_key (pre @ [n]) \<mapsto> None)"
  shows "(\<forall>k < length pre. cache_get (pathCache s') (path_key (take (Suc k) pre)) \<noteq> None)
       \<and> cache_get (pathCache s') (path_key pre) = Some m
       \<and> cache_get (pathCache s') (path_key (pre @ [n])) = None"
  using assms path_key_take_neq [of _ pre n] path_key_neq [of pre n]
  by (simp add: cache_get_def)


section \<open>What the operations leave in the cache\<close>

lemma request_pathCache_result: "request params s = (a, s1) \<Longrightarrow> pathCache s1 = pathCache s"
  using request_pathCache [of params s] by simp

lemma query_segment_other_keys:
  "k \<noteq> fullPath \<Longrightarrow> pathCache (snd (query_segment fullPath n parent s)) k = pathCache s k"
  by (auto simp: query_segment_def split: option.splits prod.splits sum.splits
           dest: request_pathCache_result)

lemma walk_short_keys:
  "length k \<le> length fullPath \<Longrightarrow> pathCache (snd (walk names fullPath parent s)) k = pathCache s k"
proof (induction names arbitrary: fullPath parent s)
  case Nil
  then show ?case by simp
next
  case (Cons n rest)
  let ?fp = "fullPath @ n @ ''/''"
  let ?q = "if cache_get (pathCache s) ?fp = None then query_segment ?fp n parent s else (Inr (), s)"
  obtain a s1 where q: "?q = (a, s1)"
    by (cases ?q)
  have ne: "k \<noteq> ?fp"
    using Cons.prems by auto
  have c1: "pathCache s1 k = pathCache s k"
    using q query_segment_other_keys [OF ne, of n parent s] by (auto split: if_splits)
  have w: "walk (n # rest) fullPath parent s =
      (case a of Inl e \<Rightarrow> (Inl e, s1)
       | Inr u \<Rightarrow> (case cache_get (pathCache s1) ?fp of None \<Rightarrow> (Inr (), s1)
                   | Some m \<Rightarrow> walk rest ?fp (Some m) s1))"
    using q by (simp add: Let_def)
  show ?case
  proof (cases a)
    case (Inl e)
    with w c1 show ?thesis by simp
  next
    case (Inr u)
    show ?thesis
    proof (cases "cache_get (pathCache s1) ?fp")
      case None
      with w Inr c1 show ?thesis by simp
    next
      case (Some m)
      have "pathCache (snd (walk rest ?fp (Some m) s1)) k = pathCache s1 k"
        using Cons.prems by (intro Cons.IH) simp
      with w Inr Some c1 show ?thesis by simp
    qed
  qed
qed

lemma getMetadata_root_kept: "pathCache (snd (getMetadata p s)) ''/'' = pathCache s ''/''"
proof -
  have "pathCache (snd (walk names ''/'' parent s)) ''/'' = pathCache s ''/''" for names parent
    by (rule walk_short_keys) simp
  then show ?thesis
    by (auto simp: getMetadata_def Let_def split: prod.splits sum.splits)
       (metis snd_conv)+
qed

lemma listFiles_loop_pathCache: "pathCache (snd (listFiles_loop t params acc s)) = pathCache s"
proof (induction t params acc s rule: listFiles_loop.induct)
  case (1 t params acc s)
  obtain a s1 where r: "request (with_token t params) s = (a, s1)"
    by (cases "request (with_token t params) s")
  then have c: "pathCache s1 = pathCache s"
    by (rule request_pathCache_result)
  show ?case
  proof (cases a)
    case (Inl e)
    with r c show ?thesis
      by (simp add: listFiles_loop_failed)
  next
    case (Inr result)
    with r have r': "request (with_token t params) s = (Inr result, s1)"
      by simp
    note step = listFiles_loop_page [OF r', of acc]
    show ?thesis
    proof (cases "token_set (nextPageToken result)")
      case False
      with step c show ?thesis by simp
    next
      case True
      have "pathCache (snd (listFiles_loop (nextPageToken result) (with_token t params) (acc @ files result) s1))
              = pathCache s1"
        using "1.IH" [OF refl r' [symmetric] refl True] .
      with step True c show ?thesis by simp
    qed
  qed
qed

lemma listFiles_pathCache: "pathCache (snd (listFiles ident s)) = pathCache s"
  by (simp add: listFiles_def listFiles_loop_pathCache)

lemma list_children_pathCache: "pathCache (snd (list_children ident s)) = pathCache s"
  using listFiles_pathCache [of ident s]
  by (auto simp: list_children_def split: prod.splits sum.splits)

lemma getRawData_pathCache: "pathCache (snd (getRawData ident byte_range s)) = pathCache s"
  using authorize_pathCache [of s]
  by (auto simp: getRawData_def fetch_media_def split: prod.splits sum.splits list.splits)

lemma index_state: "snd (index p s) = snd (getMetadata p s)"
  by (auto simp: index_def split: prod.splits sum.splits option.splits)

lemma perform_root_kept: "pathCache (perform e s) ''/'' = pathCache s ''/''"
  by (cases e)
     (simp_all add: authorize_pathCache index_state getMetadata_root_kept list_children_pathCache
        getRawData_pathCache)

lemma run_root_kept: "pathCache (run history s) ''/'' = pathCache s ''/''"
  unfolding run_def
  by (induction history arbitrary: s) (simp_all add: perform_root_kept)

lemma root_keys: "join [''/'', '''', ''/''] = ''/''" "join [''/'', ''/'', ''/''] = ''/''"
  by (simp_all add: join_def)


section \<open>Fetches of a resolution, and escaped quotes\<close>

lemma authorize_sent_grows: "\<exists>more. sent (snd (authorize s)) = sent s @ more"
  by (auto simp: authorize_def fetch_token_def split: list.splits token_json.splits)

lemma request_sent_grows: "\<exists>more. sent (snd (request params s)) = sent s @ more"
proof (induction params s rule: request.induct)
  case (1 params s)
  obtain a s1 where auth: "authorize s = (a, s1)"
    by (cases "authorize s")
  from authorize_sent_grows [of s] auth obtain m1 where m1: "sent s1 = sent s @ m1"
    by auto
  show ?case
  proof (cases a)
    case (Inl e)
    with auth m1 show ?thesis
      by (simp add: request_unauthorized)
  next
    case (Inr u)
    with auth have ok: "authorize s = (Inr (), s1)"
      by simp
    show ?thesis
    proof (cases "drive_replies s1")
      case Nil
      with ok m1 show ?thesis
        by (simp add: request_unanswered)
    next
      case (Cons r rs)
      note step = request_authorized [OF ok Cons, of params]
      have m2: "sent (answered params r rs s1) = sent s @ m1 @ [drive_request params (options s1)]"
        using m1 by (simp add: answered_def)
      show ?thesis
      proof (cases "d_body r")
        case (FileList fs token)
        with step m2 show ?thesis
          by simp
      next
        case (ApiError message)
        show ?thesis
        proof (cases "prefix ''User Rate Limit Exceeded'' message")
          case False
          with step ApiError m2 show ?thesis
            by simp
        next
          case True
          have fd: "(Some r, answered params r rs s1) = fetch_drive (drive_request params (options s1)) s1"
            using Cons by (simp add: fetch_drive_def answered_def)
          from "1.IH" [OF ok [symmetric] refl fd refl ApiError True]
          obtain m3 where "sent (snd (request params (answered params r rs s1))) = sent (answered params r rs s1) @ m3"
            by auto
          with step ApiError True m2 show ?thesis
            by simp
        qed
      qed
    qed
  qed
qed

lemma request_sends:
  assumes "\<not> expired s"
  shows "\<exists>more. sent (snd (request params s)) = sent s @ drive_request params (options s) # more"
proof -
  have ok: "authorize s = (Inr (), s)"
    using assms by (rule authorize_not_expired)
  show ?thesis
  proof (cases "drive_replies s")
    case Nil
    with ok show ?thesis
      by (simp add: request_unanswered)
  next
    case (Cons r rs)
    note step = request_authorized [OF ok Cons, of params]
    have a: "sent (answered params r rs s) = sent s @ [drive_request params (options s)]"
      by (simp add: answered_def)
    show ?thesis
    proof (cases "d_body r")
      case (FileList fs token)
      with step a show ?thesis by simp
    next
      case (ApiError message)
      show ?thesis
      proof (cases "prefix ''User Rate Limit Exceeded'' message")
        case False
        with step ApiError a show ?thesis by simp
      next
        case True
        from request_sent_grows [of params "answered params r rs s"]
        obtain m where "sent (snd (request params (answered params r rs s))) = sent (answered params r rs s) @ m"
          by auto
        with step ApiError True a show ?thesis by simp
      qed
    qed
  qed
qed

lemma getMetadata_last_segment:
  assumes "segments p = pre @ [n]"
    and "\<forall>k < length pre. cache_get (pathCache s) (path_key (take (Suc k) pre)) \<noteq> None"
    and "cache_get (pathCache s) (path_key pre) = Some m"
    and "cache_get (pathCache s) (path_key (pre @ [n])) = None"
    and "decodeURIComponent n = Some d"
  shows "getMetadata p s =
     (case request (metadata_query (id' m) (escape_quotes d)) s of
        (Inl e, s1) \<Rightarrow> (Inl e, s1)
      | (Inr result, s1) \<Rightarrow>
          (Inr (first_file result),
           s1\<lparr>pathCache := (pathCache s1)(path_key (pre @ [n]) \<mapsto> first_file result)\<rparr>))"
  using getMetadata_step [OF assms(1-4) assms(4) assms(5)]
  by (simp add: cache_get_def split: prod.splits sum.splits option.splits)

lemma getMetadata_last_segment_sent:
  assumes "segments p = pre @ [n]"
    and "\<forall>k < length pre. cache_get (pathCache s) (path_key (take (Suc k) pre)) \<noteq> None"
    and "cache_get (pathCache s) (path_key pre) = Some m"
    and "cache_get (pathCache s) (path_key (pre @ [n])) = None"
    and "decodeURIComponent n = Some d"
  shows "sent (snd (getMetadata p s)) = sent (snd (request (metadata_query (id' m) (escape_quotes d)) s))"
  using getMetadata_last_segment [OF assms]
  by (simp split: prod.splits sum.splits)

lemma escape_quotes_Cons:
  "escape_quotes (c # s) = (if c = squote then [backslash, squote] else [c]) @ escape_quotes s"
  by (simp add: escape_quotes_def)

lemma escape_quotes_guarded:
  "i < length (escape_quotes s) \<Longrightarrow> escape_quotes s ! i = squote \<Longrightarrow>
   0 < i \<and> escape_quotes s ! (i - 1) = backslash"
proof (induction s arbitrary: i)
  case Nil
  then show ?case by (simp add: escape_quotes_def)
next
  case (Cons c s)
  show ?case
  proof (cases "c = squote")
    case True
    then have e: "escape_quotes (c # s) = backslash # squote # escape_quotes s"
      by (simp add: escape_quotes_Cons)
    show ?thesis
    proof (cases i)
      case 0
      with Cons.prems e show ?thesis by simp
    next
      case (Suc j)
      note i = this
      show ?thesis
      proof (cases j)
        case 0
        with i e show ?thesis by simp
      next
        case (Suc k)
        with i e Cons.prems have "k < length (escape_quotes s)" "escape_quotes s ! k = squote"
          by simp_all
        from Cons.IH [OF this] have "0 < k" "escape_quotes s ! (k - 1) = backslash"
          by simp_all
        then show ?thesis
          using i Suc e by (cases k) simp_all
      qed
    qed
  next
    case False
    then have e: "escape_quotes (c # s) = c # escape_quotes s"
      by (simp add: escape_quotes_Cons)
    show ?thesis
    proof (cases i)
      case 0
      with Cons.prems e False show ?thesis by simp
    next
      case (Suc k)
      with e Cons.prems have "k < length (escape_quotes s)" "escape_quotes s ! k = squote"
        by simp_all
      from Cons.IH [OF this] have "0 < k" "escape_quotes s ! (k - 1) = backslash"
        by simp_all
      then show ?thesis
        using Suc e by (cases k) simp_all
    qed
  qed
qed

lemma getMetadata_same_key:
  "join [''/'', q, ''/''] = join [''/'', p, ''/''] \<Longrightarrow> getMetadata q s = getMetadata p s"
  by (simp add: getMetadata_def)


section \<open>Where a walk stops, and what the next one asks\<close>

lemma query_segment_sent_grows: "\<exists>more. sent (snd (query_segment fullPath n parent s)) = sent s @ more"
proof (cases "decodeURIComponent n")
  case None
  then show ?thesis by (simp add: query_segment_def)
next
  case (Some d)
  note d = this
  show ?thesis
  proof (cases parent)
    case None
    with d show ?thesis by (simp add: query_segment_def)
  next
    case (Some m)
    obtain a s1 where r: "request (metadata_query (id' m) (escape_quotes d)) s = (a, s1)"
      by (cases "request (metadata_query (id' m) (escape_quotes d)) s")
    from request_sent_grows [of "metadata_query (id' m) (escape_quotes d)" s] r
    obtain more where "sent s1 = sent s @ more"
      by auto
    with d Some r show ?thesis
      by (cases a) (simp_all add: query_segment_def)
  qed
qed

lemma walk_step:
  assumes "(if cache_get (pathCache s) (fullPath @ n @ ''/'') = None
            then query_segment (fullPath @ n @ ''/'') n parent s else (Inr (), s)) = (a, s1)"
  shows "walk (n # rest) fullPath parent s =
      (case a of Inl e \<Rightarrow> (Inl e, s1)
       | Inr u \<Rightarrow> (case cache_get (pathCache s1) (fullPath @ n @ ''/'') of None \<Rightarrow> (Inr (), s1)
                   | Some m \<Rightarrow> walk rest (fullPath @ n @ ''/'') (Some m) s1))"
  using assms by (simp add: Let_def)

lemma walk_sent_grows: "\<exists>more. sent (snd (walk names fullPath parent s)) = sent s @ more"
proof (induction names arbitrary: fullPath parent s)
  case Nil
  then show ?case by simp
next
  case (Cons n rest)
  let ?fp = "fullPath @ n @ ''/''"
  let ?q = "if cache_get (pathCache s) ?fp = None then query_segment ?fp n parent s else (Inr (), s)"
  obtain a s1 where q: "?q = (a, s1)"
    by (cases ?q)
  have "\<exists>more. sent s1 = sent s @ more"
    using q query_segment_sent_grows [of ?fp n parent s] by (auto split: if_splits)
  then obtain m1 where m1: "sent s1 = sent s @ m1"
    by auto
  note w = walk_step [OF q, of rest]
  show ?case
  proof (cases a)
    case (Inl e)
    with w m1 show ?thesis by simp
  next
    case (Inr u)
    show ?thesis
    proof (cases "cache_get (pathCache s1) ?fp")
      case None
      with w Inr m1 show ?thesis by simp
    next
      case (Some m)
      from Cons.IH [of ?fp "Some m" s1] obtain m2 where
        "sent (snd (walk rest ?fp (Some m) s1)) = sent s1 @ m2"
        by auto
      with w Inr Some m1 show ?thesis by simp
    qed
  qed
qed

lemma query_segment_returned:
  assumes "query_segment fullPath n parent s = (Inr u, s1)"
  shows "decodeURIComponent n \<noteq> None \<and> parent \<noteq> None"
  using assms by (auto simp: query_segment_def split: option.splits prod.splits sum.splits)

text \<open>Where a walk that returned has stopped.\<close>

lemma walk_returned:
  assumes "walk names fullPath parent s = (Inr u, s1)"
  shows "(\<forall>k < length names.
            cache_get (pathCache s1) (fullPath @ concat (map (\<lambda>n. n @ ''/'') (take (Suc k) names))) \<noteq> None)
       \<or> (\<exists>j < length names.
            (\<forall>k < j. cache_get (pathCache s1) (fullPath @ concat (map (\<lambda>n. n @ ''/'') (take (Suc k) names))) \<noteq> None)
            \<and> cache_get (pathCache s1) (fullPath @ concat (map (\<lambda>n. n @ ''/'') (take (Suc j) names))) = None
            \<and> decodeURIComponent (names ! j) \<noteq> None
            \<and> (j = 0 \<longrightarrow> parent \<noteq> None))"
  using assms
proof (induction names arbitrary: fullPath parent s)
  case Nil
  then show ?case by simp
next
  case (Cons n rest)
  let ?fp = "fullPath @ n @ ''/''"
  let ?q = "if cache_get (pathCache s) ?fp = None then query_segment ?fp n parent s else (Inr (), s)"
  let ?cum = "\<lambda>fp names k. fp @ concat (map (\<lambda>n. n @ ''/'') (take k names))"
  obtain a s' where q: "?q = (a, s')"
    by (cases ?q)
  note w = walk_step [OF q, of rest]
  from w Cons.prems obtain u' where a: "a = Inr u'"
    by (cases a) auto
  have queried: "cache_get (pathCache s) ?fp = None \<Longrightarrow> decodeURIComponent n \<noteq> None \<and> parent \<noteq> None"
    using q a query_segment_returned [of ?fp n parent s] by auto
  show ?case
  proof (cases "cache_get (pathCache s') ?fp")
    case None
    with w a Cons.prems have s1: "s1 = s'"
      by simp
    have "cache_get (pathCache s) ?fp = None"
    proof (rule ccontr)
      assume "cache_get (pathCache s) ?fp \<noteq> None"
      with q have "s' = s" by (auto split: if_splits)
      with None \<open>cache_get (pathCache s) ?fp \<noteq> None\<close> show False by simp
    qed
    with queried have "decodeURIComponent n \<noteq> None" "parent \<noteq> None"
      by simp_all
    with None s1 have "(\<forall>k < 0. cache_get (pathCache s1) (?cum fullPath (n # rest) (Suc k)) \<noteq> None)
            \<and> cache_get (pathCache s1) (?cum fullPath (n # rest) (Suc 0)) = None
            \<and> decodeURIComponent ((n # rest) ! 0) \<noteq> None
            \<and> (0 = (0::nat) \<longrightarrow> parent \<noteq> None)"
      by simp
    then show ?thesis
      by (intro disjI2 exI [of _ 0]) simp
  next
    case (Some m)
    with w a Cons.prems have rec: "walk rest ?fp (Some m) s' = (Inr u, s1)"
      by simp
    have kept: "cache_get (pathCache s1) ?fp = Some m"
      using walk_short_keys [of ?fp ?fp rest "Some m" s'] rec Some by (simp add: cache_get_def)
    from Cons.IH [OF rec]
    show ?thesis
    proof
      assume all: "\<forall>k < length rest. cache_get (pathCache s1) (?cum ?fp rest (Suc k)) \<noteq> None"
      have "\<forall>k < length (n # rest). cache_get (pathCache s1) (?cum fullPath (n # rest) (Suc k)) \<noteq> None"
      proof (intro allI impI)
        fix k assume "k < length (n # rest)"
        then show "cache_get (pathCache s1) (?cum fullPath (n # rest) (Suc k)) \<noteq> None"
          using all kept by (cases k) simp_all
      qed
      then show ?thesis by (rule disjI1)
    next
      assume "\<exists>j < length rest.
            (\<forall>k < j. cache_get (pathCache s1) (?cum ?fp rest (Suc k)) \<noteq> None)
            \<and> cache_get (pathCache s1) (?cum ?fp rest (Suc j)) = None
            \<and> decodeURIComponent (rest ! j) \<noteq> None
            \<and> (j = 0 \<longrightarrow> Some m \<noteq> None)"
      then obtain j where j: "j < length rest"
        and before: "\<forall>k < j. cache_get (pathCache s1) (?cum ?fp rest (Suc k)) \<noteq> None"
        and here: "cache_get (pathCache s1) (?cum ?fp rest (Suc j)) = None"
        and dec: "decodeURIComponent (rest ! j) \<noteq> None"
        by blast
      have b: "\<forall>k < Suc j. cache_get (pathCache s1) (?cum fullPath (n # rest) (Suc k)) \<noteq> None"
      proof (intro allI impI)
        fix k assume "k < Suc j"
        then show "cache_get (pathCache s1) (?cum fullPath (n # rest) (Suc k)) \<noteq> None"
          using before kept by (cases k) simp_all
      qed
      have "Suc j < length (n # rest)
            \<and> (\<forall>k < Suc j. cache_get (pathCache s1) (?cum fullPath (n # rest) (Suc k)) \<noteq> None)
            \<and> cache_get (pathCache s1) (?cum fullPath (n # rest) (Suc (Suc j))) = None
            \<and> decodeURIComponent ((n # rest) ! Suc j) \<noteq> None
            \<and> (Suc j = 0 \<longrightarrow> parent \<noteq> None)"
        using j b here dec by simp
      then show ?thesis
        by (intro disjI2 exI [of _ "Suc j"]) blast
    qed
  qed
qed


lemma walk_requeries:
  assumes "j < length names"
    and "\<forall>k < j. cache_get (pathCache s) (fullPath @ concat (map (\<lambda>n. n @ ''/'') (take (Suc k) names))) \<noteq> None"
    and "cache_get (pathCache s) (fullPath @ concat (map (\<lambda>n. n @ ''/'') (take (Suc j) names))) = None"
    and "decodeURIComponent (names ! j) \<noteq> None"
    and "j = 0 \<longrightarrow> parent \<noteq> None"
    and "\<not> expired s"
  shows "\<exists>q more. sent (snd (walk names fullPath parent s)) = sent s @ drive_request q (options s) # more"
proof -
  let ?pre = "take j names"
  let ?n = "names ! j"
  let ?rest = "drop (Suc j) names"
  let ?fp = "fullPath @ concat (map (\<lambda>n. n @ ''/'') ?pre)"
  let ?par = "if ?pre = [] then parent else cache_get (pathCache s) ?fp"
  have names: "names = ?pre @ ?n # ?rest"
    using assms(1) by (simp add: id_take_nth_drop)
  have len: "length ?pre = j"
    using assms(1) by simp
  have pre: "\<forall>k < length ?pre. cache_get (pathCache s)
               (fullPath @ concat (map (\<lambda>n. n @ ''/'') (take (Suc k) ?pre))) \<noteq> None"
  proof (intro allI impI)
    fix k assume "k < length ?pre"
    then have k: "k < j" using len by simp
    then have "take (Suc k) ?pre = take (Suc k) names"
      by (simp add: min_def)
    with assms(2) k show "cache_get (pathCache s)
               (fullPath @ concat (map (\<lambda>n. n @ ''/'') (take (Suc k) ?pre))) \<noteq> None"
      by simp
  qed
  have w1: "walk names fullPath parent s = walk (?n # ?rest) ?fp ?par s"
    using walk_cached_prefix [OF pre, of "?n # ?rest" parent] names by simp
  have "?par \<noteq> None"
  proof (cases j)
    case 0
    with assms(5) show ?thesis by simp
  next
    case (Suc i)
    then have "i < j" by simp
    with assms(2) have "cache_get (pathCache s)
        (fullPath @ concat (map (\<lambda>n. n @ ''/'') (take (Suc i) names))) \<noteq> None"
      by blast
    moreover have "?pre \<noteq> []"
      using Suc assms(1) by (cases names) auto
    ultimately show ?thesis
      using Suc by simp
  qed
  then obtain m where m: "?par = Some m"
    by auto
  from assms(4) obtain d where d: "decodeURIComponent ?n = Some d"
    by auto
  have "take (Suc j) names = ?pre @ [?n]"
    using assms(1) by (rule take_Suc_conv_app_nth)
  with assms(3) have miss: "cache_get (pathCache s) (?fp @ ?n @ ''/'') = None"
    by simp
  let ?q = "metadata_query (id' m) (escape_quotes d)"
  note w2 = walk_miss [OF miss d, of ?rest m]
  obtain a s1 where r: "request ?q s = (a, s1)"
    by (cases "request ?q s")
  from request_sends [OF assms(6), of ?q] r obtain m1 where
    m1: "sent s1 = sent s @ drive_request ?q (options s) # m1"
    by auto
  have "\<exists>more. sent (snd (walk (?n # ?rest) ?fp (Some m) s)) = sent s @ drive_request ?q (options s) # more"
  proof (cases a)
    case (Inl e)
    with w2 r m1 show ?thesis by simp
  next
    case (Inr result)
    show ?thesis
    proof (cases "first_file result")
      case None
      with w2 r Inr m1 show ?thesis by simp
    next
      case (Some f)
      let ?s2 = "s1\<lparr>pathCache := (pathCache s1)(?fp @ ?n @ ''/'' \<mapsto> Some f)\<rparr>"
      from walk_sent_grows [of ?rest "?fp @ ?n @ ''/''" "Some f" ?s2] obtain m2 where
        "sent (snd (walk ?rest (?fp @ ?n @ ''/'') (Some f) ?s2)) = sent ?s2 @ m2"
        by auto
      with w2 r Inr Some m1 show ?thesis by simp
    qed
  qed
  then obtain more where
    "sent (snd (walk (?n # ?rest) ?fp (Some m) s)) = sent s @ drive_request ?q (options s) # more"
    by blast
  then have "sent (snd (walk names fullPath parent s)) = sent s @ drive_request ?q (options s) # more"
    by (simp only: w1 m)
  then show ?thesis
    by blast
qed

lemma getMetadata_requeries:
  assumes "fst (getMetadata p s) = Inr None"
    and "cache_get (pathCache s) ''/'' \<noteq> None"
    and "\<not> expired (snd (getMetadata p s))"
  shows "\<exists>q more. sent (snd (getMetadata p (snd (getMetadata p s)))) =
           sent (snd (getMetadata p s)) @ drive_request q (options (snd (getMetadata p s))) # more"
proof -
  let ?key = "path_key (segments p)"
  let ?names = "js_split (trim ?key (CHR ''/'')) (CHR ''/'')"
  let ?s1 = "snd (getMetadata p s)"
  have miss0: "cache_get (pathCache s) ?key = None"
  proof (rule ccontr)
    assume "cache_get (pathCache s) ?key \<noteq> None"
    then obtain m where "cache_get (pathCache s) ?key = Some m" by auto
    then have "getMetadata p s = (Inr (Some m), s)" by (rule getMetadata_hit)
    with assms(1) show False by simp
  qed
  have segs: "segments p \<noteq> []"
  proof
    assume "segments p = []"
    then have "?key = ''/''" by (simp add: path_key_def)
    with miss0 assms(2) show False by simp
  qed
  have names: "?names = segments p"
    using segs segments_proper [of _ p] by (intro names_of_key) auto
  obtain a s1 where w: "walk (segments p) ''/'' (cache_get (pathCache s) ''/'') s = (a, s1)"
    by (cases "walk (segments p) ''/'' (cache_get (pathCache s) ''/'') s")
  from assms(1) miss0 w names obtain u where a: "a = Inr u"
    by (cases a) (simp_all add: getMetadata_key)
  have s1: "?s1 = s1"
    using miss0 w names a by (simp add: getMetadata_key)
  have miss1: "cache_get (pathCache s1) ?key = None"
    using getMetadata_missing_uncached [OF assms(1)] s1 by simp
  have root1: "cache_get (pathCache s1) ''/'' \<noteq> None"
    using getMetadata_root_kept [of p s] assms(2) s1 by (simp add: cache_get_def)
  from walk_returned [of "segments p" "''/''" "cache_get (pathCache s) ''/''" s u s1] w a
  have "(\<forall>k < length (segments p).
            cache_get (pathCache s1) (''/'' @ concat (map (\<lambda>n. n @ ''/'') (take (Suc k) (segments p)))) \<noteq> None)
       \<or> (\<exists>j < length (segments p).
            (\<forall>k < j. cache_get (pathCache s1) (''/'' @ concat (map (\<lambda>n. n @ ''/'') (take (Suc k) (segments p)))) \<noteq> None)
            \<and> cache_get (pathCache s1) (''/'' @ concat (map (\<lambda>n. n @ ''/'') (take (Suc j) (segments p)))) = None
            \<and> decodeURIComponent (segments p ! j) \<noteq> None
            \<and> (j = 0 \<longrightarrow> cache_get (pathCache s) ''/'' \<noteq> None))"
    by simp
  then obtain j where j: "j < length (segments p)"
    and before: "\<forall>k < j. cache_get (pathCache s1) (''/'' @ concat (map (\<lambda>n. n @ ''/'') (take (Suc k) (segments p)))) \<noteq> None"
    and here: "cache_get (pathCache s1) (''/'' @ concat (map (\<lambda>n. n @ ''/'') (take (Suc j) (segments p)))) = None"
    and dec: "decodeURIComponent (segments p ! j) \<noteq> None"
  proof
    assume all: "\<forall>k < length (segments p).
            cache_get (pathCache s1) (''/'' @ concat (map (\<lambda>n. n @ ''/'') (take (Suc k) (segments p)))) \<noteq> None"
    from segs obtain i where i: "length (segments p) = Suc i"
      by (cases "segments p") auto
    then have "i < length (segments p)"
      by simp
    with all have "cache_get (pathCache s1) (''/'' @ concat (map (\<lambda>n. n @ ''/'') (take (Suc i) (segments p)))) \<noteq> None"
      by blast
    moreover have "take (Suc i) (segments p) = segments p"
      using i by simp
    ultimately have "cache_get (pathCache s1) (path_key (segments p)) \<noteq> None"
      by (simp add: path_key_def)
    with miss1 have False
      by simp
    then show thesis ..
  next
    assume "\<exists>j < length (segments p).
            (\<forall>k < j. cache_get (pathCache s1) (''/'' @ concat (map (\<lambda>n. n @ ''/'') (take (Suc k) (segments p)))) \<noteq> None)
            \<and> cache_get (pathCache s1) (''/'' @ concat (map (\<lambda>n. n @ ''/'') (take (Suc j) (segments p)))) = None
            \<and> decodeURIComponent (segments p ! j) \<noteq> None
            \<and> (j = 0 \<longrightarrow> cache_get (pathCache s) ''/'' \<noteq> None)"
    then show thesis
      using that by blast
  qed
  have exp: "\<not> expired s1"
    using assms(3) s1 by simp
  from walk_requeries [OF j before here dec _ exp, of "cache_get (pathCache s1) ''/''"] root1
  obtain q more where again:
    "sent (snd (walk (segments p) ''/'' (cache_get (pathCache s1) ''/'') s1)) = sent s1 @ drive_request q (options s1) # more"
    by auto
  have "snd (getMetadata p s1) = snd (walk (segments p) ''/'' (cache_get (pathCache s1) ''/'') s1)"
    using miss1 names by (simp add: getMetadata_key split: prod.splits sum.splits)
  with again have "sent (snd (getMetadata p s1)) = sent s1 @ drive_request q (options s1) # more"
    by simp
  then show ?thesis
    unfolding s1 by blast
qed

lemma getMetadata_step_sends:
  assumes "segments p = pre @ n # post"
    and "\<forall>k < length pre. cache_get (pathCache s) (path_key (take (Suc k) pre)) \<noteq> None"
    and "cache_get (pathCache s) (path_key pre) = Some m"
    and "cache_get (pathCache s) (path_key (pre @ [n])) = None"
    and "cache_get (pathCache s) (path_key (pre @ n # post)) = None"
    and "decodeURIComponent n = Some d"
    and "\<not> expired s"
  shows "\<exists>more. sent (snd (getMetadata p s)) =
           sent s @ drive_request (metadata_query (id' m) (escape_quotes d)) (options s) # more"
proof -
  let ?q = "metadata_query (id' m) (escape_quotes d)"
  note step = getMetadata_step [OF assms(1-6)]
  obtain a s1 where r: "request ?q s = (a, s1)"
    by (cases "request ?q s")
  from request_sends [OF assms(7), of ?q] r obtain m1 where
    m1: "sent s1 = sent s @ drive_request ?q (options s) # m1"
    by auto
  show ?thesis
  proof (cases a)
    case (Inl e)
    with step r m1 show ?thesis by simp
  next
    case (Inr result)
    show ?thesis
    proof (cases "first_file result")
      case None
      with step r Inr m1 show ?thesis by simp
    next
      case (Some f)
      let ?s2 = "s1\<lparr>pathCache := (pathCache s1)(path_key (pre @ [n]) \<mapsto> Some f)\<rparr>"
      from walk_sent_grows [of post "path_key (pre @ [n])" "Some f" ?s2] obtain m2 where
        m2: "sent (snd (walk post (path_key (pre @ [n])) (Some f) ?s2)) = sent ?s2 @ m2"
        by auto
      have "snd (getMetadata p s) = snd (walk post (path_key (pre @ [n])) (Some f) ?s2)"
        using step r Inr Some by (simp split: prod.splits sum.splits)
      with m2 m1 show ?thesis by simp
    qed
  qed
qed


section \<open>Invariants of the path cache\<close>

lemma proper_segments: "proper (segments p)"
  by (auto simp: proper_def dest: segments_proper)

lemma proper_append: "proper (xs @ ys) = (proper xs \<and> proper ys)"
  by (auto simp: proper_def)

lemma path_key_not_root: "xs \<noteq> [] \<Longrightarrow> path_key xs \<noteq> ''/''"
  by (cases xs) (simp_all add: path_key_def)

lemma path_key_inj:
  assumes "proper xs" and "proper ys" and "path_key xs = path_key ys"
  shows "xs = ys"
proof (cases "xs = [] \<or> ys = []")
  case True
  have r: "path_key [] = ''/''"
    by (simp add: path_key_def)
  from True show ?thesis
  proof
    assume x: "xs = []"
    have "ys = []"
    proof (rule ccontr)
      assume "ys \<noteq> []"
      then have "path_key ys \<noteq> ''/''"
        by (rule path_key_not_root)
      moreover have "path_key ys = ''/''"
        unfolding assms(3) [symmetric] x by (rule r)
      ultimately show False
        by (rule notE)
    qed
    with x show ?thesis
      by simp
  next
    assume y: "ys = []"
    have "xs = []"
    proof (rule ccontr)
      assume "xs \<noteq> []"
      then have "path_key xs \<noteq> ''/''"
        by (rule path_key_not_root)
      moreover have "path_key xs = ''/''"
        unfolding assms(3) y by (rule r)
      ultimately show False
        by (rule notE)
    qed
    with y show ?thesis
      by simp
  qed
next
  case False
  then have x: "xs \<noteq> []" and y: "ys \<noteq> []"
    by simp_all
  have px: "\<forall>n \<in> set xs. n \<noteq> [] \<and> CHR ''/'' \<notin> set n"
    using assms(1) by (simp add: proper_def)
  have py: "\<forall>n \<in> set ys. n \<noteq> [] \<and> CHR ''/'' \<notin> set n"
    using assms(2) by (simp add: proper_def)
  have "xs = js_split (trim (path_key xs) (CHR ''/'')) (CHR ''/'')"
    using names_of_key [OF x px] by (rule sym)
  also have "\<dots> = js_split (trim (path_key ys) (CHR ''/'')) (CHR ''/'')"
    by (simp only: assms(3))
  also have "\<dots> = ys"
    by (rule names_of_key [OF y py])
  finally show ?thesis .
qed

lemma cache_get_marker: "cache_get c K = None \<Longrightarrow> cache_get (c(K \<mapsto> None)) k = cache_get c k"
  by (simp add: cache_get_def)

lemma ancestors_cached_marker:
  "cache_get c K = None \<Longrightarrow> ancestors_cached c \<Longrightarrow> ancestors_cached (c(K \<mapsto> None))"
  by (simp add: ancestors_cached_def cache_get_marker)

lemma ancestors_cached_found:
  assumes "ancestors_cached c" and "proper (seen @ [n])" and "cache_get c (path_key seen) \<noteq> None"
  shows "ancestors_cached (c(path_key (seen @ [n]) \<mapsto> Some f))"
  unfolding ancestors_cached_def
proof (intro allI impI)
  fix xs x
  assume p: "proper (xs @ [x])"
    and t: "cache_get (c(path_key (seen @ [n]) \<mapsto> Some f)) (path_key (xs @ [x])) \<noteq> None"
  have parent: "cache_get c (path_key xs) \<noteq> None"
  proof (cases "path_key (xs @ [x]) = path_key (seen @ [n])")
    case True
    with p assms(2) have "xs @ [x] = seen @ [n]"
      by (intro path_key_inj)
    then have "xs = seen"
      by simp
    with assms(3) show ?thesis
      by simp
  next
    case False
    with t have "cache_get c (path_key (xs @ [x])) \<noteq> None"
      by (simp add: cache_get_def)
    with assms(1) p show ?thesis
      unfolding ancestors_cached_def by blast
  qed
  then show "cache_get (c(path_key (seen @ [n]) \<mapsto> Some f)) (path_key xs) \<noteq> None"
    by (simp add: cache_get_def)
qed

lemma query_segment_pathCache:
  "pathCache (snd (query_segment fp n parent s)) = pathCache s
   \<or> (\<exists>v. pathCache (snd (query_segment fp n parent s)) = (pathCache s)(fp \<mapsto> v))"
proof (cases "decodeURIComponent n")
  case None
  then show ?thesis by (simp add: query_segment_def)
next
  case (Some d)
  note d = this
  show ?thesis
  proof (cases parent)
    case None
    with d show ?thesis by (simp add: query_segment_def)
  next
    case (Some m)
    obtain a s1 where r: "request (metadata_query (id' m) (escape_quotes d)) s = (a, s1)"
      by (cases "request (metadata_query (id' m) (escape_quotes d)) s")
    then have "pathCache s1 = pathCache s"
      by (rule request_pathCache_result)
    with d Some r show ?thesis
      by (cases a) (auto simp: query_segment_def)
  qed
qed

lemma walk_ancestors_cached:
  assumes "ancestors_cached (pathCache s)" and "proper (seen @ names)"
    and "cache_get (pathCache s) (path_key seen) \<noteq> None"
  shows "ancestors_cached (pathCache (snd (walk names (path_key seen) parent s)))"
  using assms
proof (induction names arbitrary: seen parent s)
  case Nil
  then show ?case by simp
next
  case (Cons n rest)
  let ?fp = "path_key seen @ n @ ''/''"
  let ?q = "if cache_get (pathCache s) ?fp = None then query_segment ?fp n parent s else (Inr (), s)"
  obtain a s1 where q: "?q = (a, s1)"
    by (cases ?q)
  note w = walk_step [OF q, of rest]
  have key: "?fp = path_key (seen @ [n])"
    by (simp add: path_key_snoc)
  have pr: "proper (seen @ [n])"
    using Cons.prems(2) by (simp add: proper_def)
  have c1: "ancestors_cached (pathCache s1)"
  proof (cases "cache_get (pathCache s) ?fp = None")
    case False
    with q Cons.prems(1) show ?thesis by simp
  next
    case True
    with q have s1: "s1 = snd (query_segment ?fp n parent s)"
      by simp
    from query_segment_pathCache [of ?fp n parent s]
    show ?thesis
    proof
      assume "pathCache (snd (query_segment ?fp n parent s)) = pathCache s"
      with s1 Cons.prems(1) show ?thesis by simp
    next
      assume "\<exists>v. pathCache (snd (query_segment ?fp n parent s)) = (pathCache s)(?fp \<mapsto> v)"
      then obtain v where v: "pathCache s1 = (pathCache s)(?fp \<mapsto> v)"
        using s1 by auto
      show ?thesis
      proof (cases v)
        case None
        with v True Cons.prems(1) show ?thesis
          by (simp add: ancestors_cached_marker)
      next
        case (Some f)
        with v key ancestors_cached_found [OF Cons.prems(1) pr Cons.prems(3), of f] show ?thesis
          by simp
      qed
    qed
  qed
  show ?case
  proof (cases a)
    case (Inl e)
    with w c1 show ?thesis by simp
  next
    case (Inr u)
    show ?thesis
    proof (cases "cache_get (pathCache s1) ?fp")
      case None
      with w Inr c1 show ?thesis by simp
    next
      case (Some m)
      have "ancestors_cached (pathCache (snd (walk rest (path_key (seen @ [n])) (Some m) s1)))"
      proof (rule Cons.IH)
        show "ancestors_cached (pathCache s1)"
          by (rule c1)
        show "proper ((seen @ [n]) @ rest)"
          using Cons.prems(2) by simp
        show "cache_get (pathCache s1) (path_key (seen @ [n])) \<noteq> None"
          using Some key by simp
      qed
      with w Inr Some key show ?thesis by simp
    qed
  qed
qed

lemma getMetadata_ancestors_cached:
  assumes "ancestors_cached (pathCache s)" and "cache_get (pathCache s) ''/'' \<noteq> None"
  shows "ancestors_cached (pathCache (snd (getMetadata p s)))"
proof (cases "cache_get (pathCache s) (path_key (segments p)) = None")
  case False
  then obtain m where "cache_get (pathCache s) (path_key (segments p)) = Some m"
    by auto
  then have "getMetadata p s = (Inr (Some m), s)"
    by (rule getMetadata_hit)
  with assms(1) show ?thesis by simp
next
  case True
  have segs: "segments p \<noteq> []"
    using True assms(2) by (auto simp: path_key_def)
  have names: "js_split (trim (path_key (segments p)) (CHR ''/'')) (CHR ''/'') = segments p"
    using segs segments_proper [of _ p] by (intro names_of_key) auto
  have "snd (getMetadata p s) = snd (walk (segments p) ''/'' (cache_get (pathCache s) ''/'') s)"
    using True names by (simp add: getMetadata_key split: prod.splits sum.splits)
  moreover have "ancestors_cached
      (pathCache (snd (walk (segments p) (path_key []) (cache_get (pathCache s) ''/'') s)))"
    using assms(1) by (rule walk_ancestors_cached) (simp_all add: proper_segments path_key_def assms(2))
  ultimately show ?thesis
    by (simp add: path_key_def)
qed

lemma perform_ancestors_cached:
  assumes "ancestors_cached (pathCache s)" and "cache_get (pathCache s) ''/'' \<noteq> None"
  shows "ancestors_cached (pathCache (perform e s))"
  using assms
  by (cases e)
     (simp_all add: authorize_pathCache index_state getMetadata_ancestors_cached
        list_children_pathCache getRawData_pathCache)

lemma run_ancestors_cached:
  assumes "ancestors_cached (pathCache s)" and "cache_get (pathCache s) ''/'' \<noteq> None"
  shows "ancestors_cached (pathCache (run history s))"
  using assms unfolding run_def
proof (induction history arbitrary: s)
  case Nil
  then show ?case by simp
next
  case (Cons e es)
  have "cache_get (pathCache (perform e s)) ''/'' \<noteq> None"
    using Cons.prems(2) by (simp add: cache_get_def perform_root_kept)
  with Cons.IH [of "perform e s"] perform_ancestors_cached [OF Cons.prems] show ?case
    by simp
qed

lemma constructor_ancestors_cached: "ancestors_cached (pathCache (constructor opts w))"
  by (simp add: ancestors_cached_def constructor_def Let_def cache_get_def path_key_def)

lemma constructor_root: "cache_get (pathCache (constructor opts w)) ''/'' \<noteq> None"
  by (simp add: constructor_def Let_def cache_get_def)

lemma run_root: "cache_get (pathCache s) ''/'' \<noteq> None \<Longrightarrow> cache_get (pathCache (run history s)) ''/'' \<noteq> None"
  by (simp add: cache_get_def run_root_kept)

lemma walk_found_kept:
  "cache_get (pathCache s) k = Some m \<Longrightarrow> cache_get (pathCache (snd (walk names fp parent s))) k = Some m"
proof (induction names arbitrary: fp parent s)
  case Nil
  then show ?case by simp
next
  case (Cons n rest)
  let ?fp = "fp @ n @ ''/''"
  let ?q = "if cache_get (pathCache s) ?fp = None then query_segment ?fp n parent s else (Inr (), s)"
  obtain a s1 where q: "?q = (a, s1)"
    by (cases ?q)
  note w = walk_step [OF q, of rest]
  have c1: "cache_get (pathCache s1) k = Some m"
  proof (cases "cache_get (pathCache s) ?fp = None")
    case False
    with q Cons.prems show ?thesis by simp
  next
    case True
    with Cons.prems have "k \<noteq> ?fp"
      by auto
    from query_segment_other_keys [OF this, of n parent s] q True Cons.prems show ?thesis
      by (simp add: cache_get_def)
  qed
  show ?case
  proof (cases a)
    case (Inl e)
    with w c1 show ?thesis by simp
  next
    case (Inr u)
    show ?thesis
    proof (cases "cache_get (pathCache s1) ?fp")
      case None
      with w Inr c1 show ?thesis by simp
    next
      case (Some m')
      from Cons.IH [OF c1, of ?fp "Some m'"] w Inr Some show ?thesis by simp
    qed
  qed
qed

lemma getMetadata_found_kept:
  "cache_get (pathCache s) k = Some m \<Longrightarrow> cache_get (pathCache (snd (getMetadata p s))) k = Some m"
  using walk_found_kept [of s k m]
  by (auto simp: getMetadata_def Let_def split: prod.splits sum.splits) (metis snd_conv)+

lemma perform_found_kept:
  "cache_get (pathCache s) k = Some m \<Longrightarrow> cache_get (pathCache (perform e s)) k = Some m"
  by (cases e)
     (simp_all add: authorize_pathCache index_state getMetadata_found_kept
        list_children_pathCache getRawData_pathCache)

lemma run_found_kept:
  "cache_get (pathCache s) k = Some m \<Longrightarrow> cache_get (pathCache (run history s)) k = Some m"
  unfolding run_def
  by (induction history arbitrary: s) (simp_all add: perform_found_kept)

lemma cached_prefixes:
  assumes "ancestors_cached c" and "proper pre" and "cache_get c (path_key pre) \<noteq> None"
  shows "cache_get c (path_key (take k pre)) \<noteq> None"
  using assms(2,3)
proof (induction pre rule: rev_induct)
  case Nil
  then show ?case by simp
next
  case (snoc x xs)
  from assms(1) snoc.prems have up: "cache_get c (path_key xs) \<noteq> None"
    unfolding ancestors_cached_def by blast
  show ?case
  proof (cases "k \<le> length xs")
    case True
    then have "take k (xs @ [x]) = take k xs"
      by simp
    with snoc.IH up snoc.prems(1) show ?thesis
      by (simp add: proper_def)
  next
    case False
    then have "take k (xs @ [x]) = xs @ [x]"
      by simp
    with snoc.prems(2) show ?thesis
      by simp
  qed
qed

lemma missing_descendants:
  assumes "ancestors_cached c" and "proper (pre @ post)" and "cache_get c (path_key pre) = None"
  shows "cache_get c (path_key (pre @ post)) = None"
proof (rule ccontr)
  assume "cache_get c (path_key (pre @ post)) \<noteq> None"
  from cached_prefixes [OF assms(1,2) this, of "length pre"] assms(3) show False
    by simp
qed

lemma walk_append:
  assumes "walk xs fp parent s = (Inr u, s0)"
    and "\<forall>k < length xs. cache_get (pathCache s0) (fp @ concat (map (\<lambda>n. n @ ''/'') (take (Suc k) xs))) \<noteq> None"
  shows "walk (xs @ ys) fp parent s =
           walk ys (fp @ concat (map (\<lambda>n. n @ ''/'') xs))
             (if xs = [] then parent
              else cache_get (pathCache s0) (fp @ concat (map (\<lambda>n. n @ ''/'') xs))) s0"
  using assms
proof (induction xs arbitrary: fp parent s)
  case Nil
  then show ?case by simp
next
  case (Cons n rest)
  let ?fp = "fp @ n @ ''/''"
  let ?q = "if cache_get (pathCache s) ?fp = None then query_segment ?fp n parent s else (Inr (), s)"
  obtain a s' where q: "?q = (a, s')"
    by (cases ?q)
  note w = walk_step [OF q, of rest]
  note w2 = walk_step [OF q, of "rest @ ys"]
  from w Cons.prems(1) obtain u' where a: "a = Inr u'"
    by (cases a) auto
  have "0 < length (n # rest)"
    by simp
  with Cons.prems(2) have "cache_get (pathCache s0) (fp @ concat (map (\<lambda>n. n @ ''/'') (take (Suc 0) (n # rest)))) \<noteq> None"
    by blast
  then have first: "cache_get (pathCache s0) ?fp \<noteq> None"
    by simp
  show ?case
  proof (cases "cache_get (pathCache s') ?fp")
    case None
    with w a Cons.prems(1) have "s0 = s'"
      by simp
    with None first show ?thesis
      by simp
  next
    case (Some m)
    with w a Cons.prems(1) have rec: "walk rest ?fp (Some m) s' = (Inr u, s0)"
      by simp
    have rest_ok: "\<forall>k < length rest. cache_get (pathCache s0)
                     (?fp @ concat (map (\<lambda>n. n @ ''/'') (take (Suc k) rest))) \<noteq> None"
    proof (intro allI impI)
      fix k assume "k < length rest"
      then have "Suc k < length (n # rest)"
        by simp
      with Cons.prems(2) have "cache_get (pathCache s0)
          (fp @ concat (map (\<lambda>n. n @ ''/'') (take (Suc (Suc k)) (n # rest)))) \<noteq> None"
        by blast
      then show "cache_get (pathCache s0) (?fp @ concat (map (\<lambda>n. n @ ''/'') (take (Suc k) rest))) \<noteq> None"
        by simp
    qed
    have kept: "cache_get (pathCache s0) ?fp = Some m"
      using walk_found_kept [OF Some, of rest ?fp "Some m"] rec by simp
    have "walk ((n # rest) @ ys) fp parent s = walk (rest @ ys) ?fp (Some m) s'"
      using w2 a Some by simp
    also have "\<dots> = walk ys (?fp @ concat (map (\<lambda>n. n @ ''/'') rest))
                      (if rest = [] then Some m
                       else cache_get (pathCache s0) (?fp @ concat (map (\<lambda>n. n @ ''/'') rest))) s0"
      using rec rest_ok by (rule Cons.IH)
    also have "\<dots> = walk ys (fp @ concat (map (\<lambda>n. n @ ''/'') (n # rest)))
                      (if n # rest = [] then parent
                       else cache_get (pathCache s0) (fp @ concat (map (\<lambda>n. n @ ''/'') (n # rest)))) s0"
      using kept by (cases "rest = []") simp_all
    finally show ?thesis .
  qed
qed

lemma walk_long_keys:
  "length (fp @ concat (map (\<lambda>n. n @ ''/'') names)) < length k \<Longrightarrow>
   pathCache (snd (walk names fp parent s)) k = pathCache s k"
proof (induction names arbitrary: fp parent s)
  case Nil
  then show ?case by simp
next
  case (Cons n rest)
  let ?fp = "fp @ n @ ''/''"
  let ?q = "if cache_get (pathCache s) ?fp = None then query_segment ?fp n parent s else (Inr (), s)"
  obtain a s1 where q: "?q = (a, s1)"
    by (cases ?q)
  have ne: "k \<noteq> ?fp"
    using Cons.prems by auto
  have c1: "pathCache s1 k = pathCache s k"
    using q query_segment_other_keys [OF ne, of n parent s] by (auto split: if_splits)
  note w = walk_step [OF q, of rest]
  show ?case
  proof (cases a)
    case (Inl e)
    with w c1 show ?thesis by simp
  next
    case (Inr u)
    show ?thesis
    proof (cases "cache_get (pathCache s1) ?fp")
      case None
      with w Inr c1 show ?thesis by simp
    next
      case (Some m)
      have "pathCache (snd (walk rest ?fp (Some m) s1)) k = pathCache s1 k"
        using Cons.prems by (intro Cons.IH) simp
      with w Inr Some c1 show ?thesis by simp
    qed
  qed
qed

lemma getMetadata_via_parent:
  assumes closed: "ancestors_cached (pathCache s)"
    and root: "cache_get (pathCache s) ''/'' \<noteq> None"
    and segs: "segments p = pre @ n # post"
    and psegs: "segments pP = pre"
    and parent: "getMetadata pP s = (Inr (Some m), s0)"
    and miss: "cache_get (pathCache s) (path_key (pre @ [n])) = None"
  shows "getMetadata p s = getMetadata p s0
       \<and> (\<forall>k < length pre. cache_get (pathCache s0) (path_key (take (Suc k) pre)) \<noteq> None)
       \<and> cache_get (pathCache s0) (path_key pre) = Some m
       \<and> cache_get (pathCache s0) (path_key (pre @ [n])) = None
       \<and> cache_get (pathCache s0) (path_key (pre @ n # post)) = None
       \<and> ancestors_cached (pathCache s0)
       \<and> cache_get (pathCache s0) ''/'' \<noteq> None"
proof -
  have s0: "s0 = snd (getMetadata pP s)"
    using parent by simp
  have pr: "proper (pre @ n # post)"
    using proper_segments [of p] segs by simp
  then have ppre: "proper pre" and pall: "proper (pre @ [n] @ post)" and pn: "proper (pre @ [n])"
    by (simp_all add: proper_def)
  have closed0: "ancestors_cached (pathCache s0)"
    unfolding s0 using closed root by (rule getMetadata_ancestors_cached)
  have root0: "cache_get (pathCache s0) ''/'' \<noteq> None"
    unfolding s0 using root by (simp add: cache_get_def getMetadata_root_kept)
  have m0: "cache_get (pathCache s0) (path_key pre) = Some m"
    using getMetadata_found_cached [of pP s m] parent psegs by simp
  have pre0: "\<forall>k < length pre. cache_get (pathCache s0) (path_key (take (Suc k) pre)) \<noteq> None"
    using cached_prefixes [OF closed0 ppre] m0 by simp
  have full: "cache_get (pathCache s) (path_key (pre @ n # post)) = None"
    using missing_descendants [OF closed _ miss, of post] pall by simp
  have both: "getMetadata p s = getMetadata p s0
              \<and> cache_get (pathCache s0) (path_key (pre @ [n])) = None"
  proof (cases "cache_get (pathCache s) (path_key pre) = None")
    case False
    then obtain m' where "cache_get (pathCache s) (path_key (segments pP)) = Some m'"
      using psegs by auto
    then have "getMetadata pP s = (Inr (Some m'), s)"
      by (rule getMetadata_hit)
    with parent have "s0 = s"
      by simp
    with miss show ?thesis
      by simp
  next
    case True
    have ne: "pre \<noteq> []"
      using True root by (auto simp: path_key_def)
    have names: "js_split (trim (path_key pre) (CHR ''/'')) (CHR ''/'') = pre"
      using ne ppre by (intro names_of_key) (simp_all add: proper_def)
    have namesp: "js_split (trim (path_key (pre @ n # post)) (CHR ''/'')) (CHR ''/'') = pre @ n # post"
      using pr by (intro names_of_key) (simp_all add: proper_def)
    obtain a sw where w: "walk pre ''/'' (cache_get (pathCache s) ''/'') s = (a, sw)"
      by (cases "walk pre ''/'' (cache_get (pathCache s) ''/'') s")
    from parent True names w psegs obtain u where a: "a = Inr u" and sw: "sw = s0"
      by (cases a) (simp_all add: getMetadata_key)
    have w': "walk pre ''/'' (cache_get (pathCache s) ''/'') s = (Inr u, s0)"
      using w a sw by simp
    have "pathCache (snd (walk pre ''/'' (cache_get (pathCache s) ''/'') s)) (path_key (pre @ [n]))
            = pathCache s (path_key (pre @ [n]))"
      by (rule walk_long_keys) (simp add: path_key_def)
    with w' miss have miss0: "cache_get (pathCache s0) (path_key (pre @ [n])) = None"
      by (simp add: cache_get_def)
    have full0: "cache_get (pathCache s0) (path_key (pre @ n # post)) = None"
      using missing_descendants [OF closed0 _ miss0, of post] pall by simp
    have pre0': "\<forall>k < length pre. cache_get (pathCache s0)
                   (''/'' @ concat (map (\<lambda>n. n @ ''/'') (take (Suc k) pre))) \<noteq> None"
      using pre0 by (simp add: path_key_def)
    have A: "walk (pre @ n # post) ''/'' (cache_get (pathCache s) ''/'') s =
             walk (n # post) (''/'' @ concat (map (\<lambda>n. n @ ''/'') pre))
               (cache_get (pathCache s0) (''/'' @ concat (map (\<lambda>n. n @ ''/'') pre))) s0"
      using walk_append [OF w' pre0', of "n # post"] ne by (simp del: walk.simps)
    have B: "walk (pre @ n # post) ''/'' (cache_get (pathCache s0) ''/'') s0 =
             walk (n # post) (''/'' @ concat (map (\<lambda>n. n @ ''/'') pre))
               (cache_get (pathCache s0) (''/'' @ concat (map (\<lambda>n. n @ ''/'') pre))) s0"
      using walk_cached_prefix [OF pre0', of "n # post" "cache_get (pathCache s0) ''/''"] ne
      by (simp del: walk.simps)
    have "getMetadata p s = getMetadata p s0"
      using full full0 namesp by (simp only: getMetadata_key segs A B simp_thms if_True)
    then show ?thesis
      using miss0 by (rule conjI)
  qed
  have full0: "cache_get (pathCache s0) (path_key (pre @ n # post)) = None"
    using missing_descendants [OF closed0 _ conjunct2 [OF both], of post] pall by simp
  from both pre0 m0 full0 closed0 root0 show ?thesis
    by blast
qed

lemma reachable_ancestors_cached: "ancestors_cached (pathCache (run history (constructor opts w)))"
  using constructor_ancestors_cached constructor_root by (rule run_ancestors_cached)

lemma reachable_root: "cache_get (pathCache (run history (constructor opts w))) ''/'' \<noteq> None"
  using constructor_root by (rule run_root)

lemma run_append: "run (a @ b) s = run b (run a s)"
  by (simp add: run_def)

lemma run_Index: "run [Index p] s = snd (getMetadata p s)"
  by (simp add: run_def index_state)

lemma getMetadata_continue:
  assumes segs: "segments p = pre @ n # post"
    and cached: "\<forall>k < length pre. cache_get (pathCache s) (path_key (take (Suc k) pre)) \<noteq> None"
    and here: "cache_get (pathCache s) (path_key (pre @ [n])) = Some f"
    and full: "post \<noteq> [] \<longrightarrow> cache_get (pathCache s) (path_key (pre @ n # post)) = None"
  shows "getMetadata p s =
     (case walk post (path_key (pre @ [n])) (Some f) s of
        (Inl e, s3) \<Rightarrow> (Inl e, s3)
      | (Inr _, s3) \<Rightarrow> (Inr (cache_get (pathCache s3) (path_key (pre @ n # post))), s3))"
proof (cases "post = []")
  case True
  then have "cache_get (pathCache s) (path_key (segments p)) = Some f"
    using here segs by simp
  then have "getMetadata p s = (Inr (Some f), s)"
    by (rule getMetadata_hit)
  with True here show ?thesis
    by simp
next
  case False
  with full have miss: "cache_get (pathCache s) (path_key (pre @ n # post)) = None"
    by simp
  have proper: "\<forall>x \<in> set (pre @ n # post). x \<noteq> [] \<and> CHR ''/'' \<notin> set x"
    using segments_proper [of _ p] segs by metis
  have names: "js_split (trim (path_key (pre @ n # post)) (CHR ''/'')) (CHR ''/'') = pre @ n # post"
    using proper by (intro names_of_key) simp_all
  have all: "\<forall>k < length (pre @ [n]). cache_get (pathCache s)
               (''/'' @ concat (map (\<lambda>n. n @ ''/'') (take (Suc k) (pre @ [n])))) \<noteq> None"
  proof (intro allI impI)
    fix k assume k: "k < length (pre @ [n])"
    show "cache_get (pathCache s) (''/'' @ concat (map (\<lambda>n. n @ ''/'') (take (Suc k) (pre @ [n])))) \<noteq> None"
    proof (cases "k < length pre")
      case True
      then have "take (Suc k) (pre @ [n]) = take (Suc k) pre"
        by simp
      with cached True show ?thesis
        by (simp add: path_key_def)
    next
      case False
      with k have "take (Suc k) (pre @ [n]) = pre @ [n]"
        by simp
      with here show ?thesis
        by (simp add: path_key_def)
    qed
  qed
  have "walk ((pre @ [n]) @ post) ''/'' (cache_get (pathCache s) ''/'') s =
          walk post (''/'' @ concat (map (\<lambda>n. n @ ''/'') (pre @ [n])))
            (cache_get (pathCache s) (''/'' @ concat (map (\<lambda>n. n @ ''/'') (pre @ [n])))) s"
    using walk_cached_prefix [OF all, of post "cache_get (pathCache s) ''/''"] by simp
  then have w: "walk (pre @ n # post) ''/'' (cache_get (pathCache s) ''/'') s =
          walk post (path_key (pre @ [n])) (Some f) s"
    using here by (simp add: path_key_def)
  show ?thesis
    using miss names by (simp only: getMetadata_key segs w simp_thms if_True)
qed

lemma getMetadata_through:
  assumes closed: "ancestors_cached (pathCache s)"
    and root: "cache_get (pathCache s) ''/'' \<noteq> None"
    and segs: "segments p = pre @ n # post"
    and psegs: "segments pP = pre"
    and parent: "getMetadata pP s = (Inr (Some m), s0)"
    and miss: "cache_get (pathCache s) (path_key (pre @ [n])) = None"
    and dec: "decodeURIComponent n = Some d"
  shows "getMetadata p s =
     (case request (metadata_query (id' m) (escape_quotes d)) s0 of
        (Inl e, s1) \<Rightarrow> (Inl e, s1)
      | (Inr result, s1) \<Rightarrow>
          (case first_file result of
             None \<Rightarrow> (Inr None, s1\<lparr>pathCache := (pathCache s1)(path_key (pre @ [n]) \<mapsto> None)\<rparr>)
           | Some f \<Rightarrow>
               getMetadata p (s1\<lparr>pathCache := (pathCache s1)(path_key (pre @ [n]) \<mapsto> Some f)\<rparr>)))"
proof -
  note v = getMetadata_via_parent [OF closed root segs psegs parent miss]
  from v have same: "getMetadata p s = getMetadata p s0"
    and pre0: "\<forall>k < length pre. cache_get (pathCache s0) (path_key (take (Suc k) pre)) \<noteq> None"
    and m0: "cache_get (pathCache s0) (path_key pre) = Some m"
    and miss0: "cache_get (pathCache s0) (path_key (pre @ [n])) = None"
    and full0: "cache_get (pathCache s0) (path_key (pre @ n # post)) = None"
    by blast+
  note step = getMetadata_step [OF segs pre0 m0 miss0 full0 dec]
  obtain a s1 where r: "request (metadata_query (id' m) (escape_quotes d)) s0 = (a, s1)"
    by (cases "request (metadata_query (id' m) (escape_quotes d)) s0")
  then have c: "pathCache s1 = pathCache s0"
    by (rule request_pathCache_result)
  show ?thesis
  proof (cases a)
    case (Inl e)
    with step r same show ?thesis
      by simp
  next
    case (Inr result)
    show ?thesis
    proof (cases "first_file result")
      case None
      with step r Inr same show ?thesis
        by simp
    next
      case (Some f)
      let ?s2 = "s1\<lparr>pathCache := (pathCache s1)(path_key (pre @ [n]) \<mapsto> Some f)\<rparr>"
      have cached2: "\<forall>k < length pre. cache_get (pathCache ?s2) (path_key (take (Suc k) pre)) \<noteq> None"
        using pre0 c path_key_take_neq [of _ pre n] by (simp add: cache_get_def)
      have here2: "cache_get (pathCache ?s2) (path_key (pre @ [n])) = Some f"
        by (simp add: cache_get_def)
      have full2: "post \<noteq> [] \<longrightarrow> cache_get (pathCache ?s2) (path_key (pre @ n # post)) = None"
        using full0 c path_key_longer [of post pre n] by (simp add: cache_get_def)
      note cont = getMetadata_continue [OF segs cached2 here2 full2]
      have "getMetadata p s0 = getMetadata p ?s2"
        using step r Inr Some cont by simp
      with same r Inr Some show ?thesis
        by simp
    qed
  qed
qed

lemma getMetadata_through_last:
  assumes closed: "ancestors_cached (pathCache s)"
    and root: "cache_get (pathCache s) ''/'' \<noteq> None"
    and segs: "segments p = pre @ [n]"
    and psegs: "segments pP = pre"
    and parent: "getMetadata pP s = (Inr (Some m), s0)"
    and miss: "cache_get (pathCache s) (path_key (pre @ [n])) = None"
    and dec: "decodeURIComponent n = Some d"
  shows "getMetadata p s =
     (case request (metadata_query (id' m) (escape_quotes d)) s0 of
        (Inl e, s1) \<Rightarrow> (Inl e, s1)
      | (Inr result, s1) \<Rightarrow>
          (Inr (first_file result),
           s1\<lparr>pathCache := (pathCache s1)(path_key (pre @ [n]) \<mapsto> first_file result)\<rparr>))"
proof -
  note v = getMetadata_via_parent [OF closed root segs psegs parent miss]
  from v have same: "getMetadata p s = getMetadata p s0"
    and pre0: "\<forall>k < length pre. cache_get (pathCache s0) (path_key (take (Suc k) pre)) \<noteq> None"
    and m0: "cache_get (pathCache s0) (path_key pre) = Some m"
    and miss0: "cache_get (pathCache s0) (path_key (pre @ [n])) = None"
    by blast+
  from getMetadata_last_segment [OF segs pre0 m0 miss0 dec] same show ?thesis
    by simp
qed

lemma escape_quotes_head: "escape_quotes s = e # es \<Longrightarrow> e \<noteq> squote"
  by (cases s) (auto simp: escape_quotes_Cons escape_quotes_def split: if_splits)

lemma unescape_escape_quotes: "unescape_quotes (escape_quotes s) = s"
proof (induction s)
  case Nil
  then show ?case by (simp add: escape_quotes_def)
next
  case (Cons c s)
  show ?case
  proof (cases "c = squote")
    case True
    then have "escape_quotes (c # s) = backslash # squote # escape_quotes s"
      by (simp add: escape_quotes_Cons)
    with Cons.IH True show ?thesis
      by simp
  next
    case False
    then have e: "escape_quotes (c # s) = c # escape_quotes s"
      by (simp add: escape_quotes_Cons)
    show ?thesis
    proof (cases "escape_quotes s")
      case Nil
      with e Cons.IH show ?thesis
        by simp
    next
      case (Cons x xs)
      then have "x \<noteq> squote"
        by (rule escape_quotes_head)
      with e Cons Cons.IH show ?thesis
        by simp
    qed
  qed
qed

lemma getMetadata_quoted_parent:
  "getMetadata ''photos'' (constructor authorized_options quoted_world) = (Inr (Some photos), quoted_parent)"
  by (simp add: eval_simps quoted_world_def escape_quotes_def quoted_parent_def)

section \<open>Negative caching\<close>

text \<open>
  Claim C1, as stated, has every later resolution of a path \<open>P\<close> that was answered
  with an empty result, and of every path below it, return not-found with no network call
  for the segment of \<open>P\<close>. The cache does record \<^verbatim>\<open>undefined\<close> under \<open>P\<close>, but
  the loop tests \<^verbatim>\<open>!this.pathCache[fullPath]\<close>, which is true for that entry as it is
  for an absent key: the segment of \<open>P\<close> is queried again by every later resolution.
\<close>

theorem marker_does_not_stop_the_query_counterexample:
  "pathCache (snd (getMetadata ''photos/b'' (constructor authorized_options photos_world))) ''/photos/b/''
     = Some None
   \<and> fst (getMetadata ''photos/b/c'' (snd (getMetadata ''photos/b'' (constructor authorized_options photos_world))))
     = Inr None
   \<and> sent (snd (getMetadata ''photos/b/c'' (snd (getMetadata ''photos/b'' (constructor authorized_options photos_world)))))
     = sent (snd (getMetadata ''photos/b'' (constructor authorized_options photos_world)))
         @ [drive_request (metadata_query ''d1'' ''b'') authorized_options]"
proof -
  let ?s = "constructor authorized_options photos_world"
  let ?s1 = "?s\<lparr>now := 2200, drive_replies := [page 2300 []],
        sent := [drive_request (metadata_query ''root'' ''photos'') authorized_options,
                 drive_request (metadata_query ''d1'' ''b'') authorized_options],
        pathCache := (pathCache ?s)(''/photos/'' \<mapsto> Some photos, ''/photos/b/'' \<mapsto> None)\<rparr>"
  have one: "getMetadata ''photos/b'' ?s = (Inr None, ?s1)"
    by (simp add: eval_simps photos_world_def escape_quotes_def photos_def)
  have two: "getMetadata ''photos/b/c'' ?s1 =
      (Inr None, ?s1\<lparr>now := 2300, drive_replies := [],
         sent := [drive_request (metadata_query ''root'' ''photos'') authorized_options,
                  drive_request (metadata_query ''d1'' ''b'') authorized_options,
                  drive_request (metadata_query ''d1'' ''b'') authorized_options]\<rparr>)"
    by (simp add: eval_simps photos_world_def escape_quotes_def photos_def)
  show ?thesis
    by (simp only: one two fst_conv snd_conv) simp
qed

text \<open>
  Claim C1, amended. When a resolution query for a cumulative sub-path \<open>P\<close> returns an
  empty result, the cache stores \<^verbatim>\<open>undefined\<close> under the key \<open>P\<close> (the key is there,
  but a lookup reads it as it reads an absent key), and that resolution returns not-found
  with zero network calls for all deeper segments. Every subsequent resolution of \<open>P\<close>,
  or of any path that descends through \<open>P\<close>, made while the cache holds no object for
  \<open>P\<close>, issues the query for the segment of \<open>P\<close> again and, when the result is empty
  again, returns not-found with zero network calls for all deeper segments.

  The theorem takes any state that an instance can reach and a path through \<open>P\<close>; the
  resolution resolves the parent of \<open>P\<close> first, with whatever queries that takes, and
  then asks for the segment of \<open>P\<close>. The later resolutions are taken after any further
  history of the instance; once a later answer has put an object under \<open>P\<close>, the
  resolution of \<open>P\<close> returns it without a query.
\<close>

theorem missing_segment_stops_the_walk:
  assumes "s = run history (constructor opts w)"
    and "segments p = pre @ n # post"
    and "segments pP = pre"
    and "getMetadata pP s = (Inr (Some m), s0)"
    and "cache_get (pathCache s) (path_key (pre @ [n])) = None"
    and "decodeURIComponent n = Some d"
    and "request (metadata_query (id' m) (escape_quotes d)) s0 = (Inr result, s1)"
    and "files result = []"
    and "s' = s1\<lparr>pathCache := (pathCache s1)(path_key (pre @ [n]) \<mapsto> None)\<rparr>"
    and "t = run later s'"
  shows "getMetadata p s = (Inr None, s')
       \<and> pathCache s' (path_key (pre @ [n])) = Some None
       \<and> cache_get (pathCache s') (path_key (pre @ [n])) = None
       \<and> (\<forall>p2 post2.
             segments p2 = pre @ n # post2
             \<and> cache_get (pathCache t) (path_key (pre @ [n])) = None
             \<longrightarrow> (\<not> expired t \<longrightarrow>
                    (\<exists>more. sent (snd (getMetadata p2 t)) =
                       sent t @ drive_request (metadata_query (id' m) (escape_quotes d)) (options t) # more))
                 \<and> (\<forall>result2 t2.
                       request (metadata_query (id' m) (escape_quotes d)) t = (Inr result2, t2)
                       \<and> files result2 = []
                       \<longrightarrow> getMetadata p2 t =
                             (Inr None, t2\<lparr>pathCache := (pathCache t2)(path_key (pre @ [n]) \<mapsto> None)\<rparr>)))
       \<and> (\<forall>p3 f. segments p3 = pre @ [n]
                  \<and> cache_get (pathCache t) (path_key (pre @ [n])) = Some f
                  \<longrightarrow> getMetadata p3 t = (Inr (Some f), t))"
proof -
  have closed: "ancestors_cached (pathCache s)"
    unfolding assms(1) by (rule reachable_ancestors_cached)
  have root: "cache_get (pathCache s) ''/'' \<noteq> None"
    unfolding assms(1) by (rule reachable_root)
  note v = getMetadata_via_parent [OF closed root assms(2-5)]
  from v have same: "getMetadata p s = getMetadata p s0"
    and pre0: "\<forall>k < length pre. cache_get (pathCache s0) (path_key (take (Suc k) pre)) \<noteq> None"
    and m0: "cache_get (pathCache s0) (path_key pre) = Some m"
    and miss0: "cache_get (pathCache s0) (path_key (pre @ [n])) = None"
    and full0: "cache_get (pathCache s0) (path_key (pre @ n # post)) = None"
    and closed0: "ancestors_cached (pathCache s0)"
    and root0: "cache_get (pathCache s0) ''/'' \<noteq> None"
    by blast+
  have "getMetadata p s0 = (Inr None, s')"
    unfolding assms(9) using assms(2) pre0 m0 miss0 full0 assms(6-8)
    by (rule getMetadata_nothing_there)
  with same have first: "getMetadata p s = (Inr None, s')"
    by simp
  have c: "pathCache s1 = pathCache s0"
    using assms(7) by (rule request_pathCache_result)
  then have upd: "pathCache s' = (pathCache s0)(path_key (pre @ [n]) \<mapsto> None)"
    by (simp add: assms(9))
  have marker: "pathCache s' (path_key (pre @ [n])) = Some None"
    by (simp add: upd)
  have reads: "cache_get (pathCache s') (path_key (pre @ [n])) = None"
    by (simp add: upd cache_get_def)
  note k = marker_keeps_hypotheses [OF pre0 m0 upd]
  from k have k1: "\<forall>k < length pre. cache_get (pathCache s') (path_key (take (Suc k) pre)) \<noteq> None"
    and k2: "cache_get (pathCache s') (path_key pre) = Some m"
    by blast+
  have closed': "ancestors_cached (pathCache s')"
    unfolding upd using miss0 closed0 by (rule ancestors_cached_marker)
  have root': "cache_get (pathCache s') ''/'' \<noteq> None"
    using root0 miss0 by (simp add: upd cache_get_marker)
  have closed_t: "ancestors_cached (pathCache t)"
    unfolding assms(10) using closed' root' by (rule run_ancestors_cached)
  have pre_t: "\<forall>k < length pre. cache_get (pathCache t) (path_key (take (Suc k) pre)) \<noteq> None"
  proof (intro allI impI)
    fix k assume "k < length pre"
    with k1 obtain x where "cache_get (pathCache s') (path_key (take (Suc k) pre)) = Some x"
      by auto
    then have "cache_get (pathCache (run later s')) (path_key (take (Suc k) pre)) = Some x"
      by (rule run_found_kept)
    then show "cache_get (pathCache t) (path_key (take (Suc k) pre)) \<noteq> None"
      by (simp add: assms(10))
  qed
  have m_t: "cache_get (pathCache t) (path_key pre) = Some m"
    unfolding assms(10) using k2 by (rule run_found_kept)
  have later: "(\<not> expired t \<longrightarrow>
                    (\<exists>more. sent (snd (getMetadata p2 t)) =
                       sent t @ drive_request (metadata_query (id' m) (escape_quotes d)) (options t) # more))
                 \<and> (\<forall>result2 t2.
                       request (metadata_query (id' m) (escape_quotes d)) t = (Inr result2, t2)
                       \<and> files result2 = []
                       \<longrightarrow> getMetadata p2 t =
                             (Inr None, t2\<lparr>pathCache := (pathCache t2)(path_key (pre @ [n]) \<mapsto> None)\<rparr>))"
    if h: "segments p2 = pre @ n # post2 \<and> cache_get (pathCache t) (path_key (pre @ [n])) = None"
    for p2 post2
  proof -
    from h have segs2: "segments p2 = pre @ n # post2"
      and miss_t: "cache_get (pathCache t) (path_key (pre @ [n])) = None"
      by blast+
    have "proper (pre @ n # post2)"
      using proper_segments [of p2] segs2 by simp
    then have "proper ((pre @ [n]) @ post2)"
      by simp
    with closed_t have "cache_get (pathCache t) (path_key ((pre @ [n]) @ post2)) = None"
      using miss_t by (rule missing_descendants)
    then have full_t: "cache_get (pathCache t) (path_key (pre @ n # post2)) = None"
      by simp
    show ?thesis
    proof (intro conjI allI impI)
      assume "\<not> expired t"
      with segs2 pre_t m_t miss_t full_t assms(6)
      show "\<exists>more. sent (snd (getMetadata p2 t)) =
              sent t @ drive_request (metadata_query (id' m) (escape_quotes d)) (options t) # more"
        by (rule getMetadata_step_sends)
    next
      fix result2 t2
      assume r: "request (metadata_query (id' m) (escape_quotes d)) t = (Inr result2, t2)
                 \<and> files result2 = []"
      then have r1: "request (metadata_query (id' m) (escape_quotes d)) t = (Inr result2, t2)"
        and r2: "files result2 = []"
        by blast+
      from segs2 pre_t m_t miss_t full_t assms(6) r1 r2
      show "getMetadata p2 t =
              (Inr None, t2\<lparr>pathCache := (pathCache t2)(path_key (pre @ [n]) \<mapsto> None)\<rparr>)"
        by (rule getMetadata_nothing_there)
    qed
  qed
  have found: "getMetadata p3 t = (Inr (Some f), t)"
    if h: "segments p3 = pre @ [n] \<and> cache_get (pathCache t) (path_key (pre @ [n])) = Some f"
    for p3 f
  proof -
    from h have "cache_get (pathCache t) (path_key (segments p3)) = Some f"
      by simp
    then show ?thesis
      by (rule getMetadata_hit)
  qed
  from first marker reads later found show ?thesis
    by blast
qed

theorem missing_segment_stops_the_walk_witness:
  "getMetadata ''photos'' (constructor authorized_options photos_world) = (Inr (Some photos), photos_resolved)
   \<and> sent photos_resolved = [drive_request (metadata_query ''root'' ''photos'') authorized_options]
   \<and> getMetadata ''photos/b/c'' (constructor authorized_options photos_world) = (Inr None, b_missing)
   \<and> pathCache b_missing ''/photos/b/'' = Some None
   \<and> cache_get (pathCache b_missing) ''/photos/b/'' = None
   \<and> getMetadata ''photos/b'' b_missing =
       (Inr None,
        b_missing
          \<lparr>now := 2300, drive_replies := [],
            sent := sent b_missing @ [drive_request (metadata_query ''d1'' ''b'') authorized_options],
            pathCache := (pathCache b_missing)(''/photos/b/'' \<mapsto> None)\<rparr>)"
proof -
  let ?s = "constructor authorized_options photos_world"
  let ?s1 = "photos_resolved
        \<lparr>now := 2200, drive_replies := [page 2300 []],
          sent := sent photos_resolved @ [drive_request (metadata_query ''d1'' ''b'') authorized_options]\<rparr>"
  let ?t2 = "b_missing
        \<lparr>now := 2300, drive_replies := [],
          sent := sent b_missing @ [drive_request (metadata_query ''d1'' ''b'') authorized_options]\<rparr>"
  have h1: "?s = run [] (constructor authorized_options photos_world)"
    by (simp add: run_def)
  have h2: "segments ''photos/b/c'' = [''photos''] @ ''b'' # [''c'']"
    by (simp add: segments_def)
  have h3: "segments ''photos'' = [''photos'']"
    by (simp add: segments_def)
  have h4: "getMetadata ''photos'' ?s = (Inr (Some photos), photos_resolved)"
    by (rule getMetadata_photos)
  have h5: "cache_get (pathCache ?s) (path_key ([''photos''] @ [''b''])) = None"
    by (simp add: path_key_def cache_get_def constructor_def Let_def)
  have h6: "decodeURIComponent ''b'' = Some ''b''"
    by (simp add: decodeURIComponent_def)
  have h7: "request (metadata_query (id' photos) (escape_quotes ''b'')) photos_resolved
              = (Inr \<lparr> files = [], nextPageToken = None \<rparr>, ?s1)"
    by (simp add: request.simps authorize_def fetch_drive_def photos_resolved_def constructor_def
        Let_def authorized_options_def page_def photos_def escape_quotes_def)
  have h8: "files \<lparr> files = [], nextPageToken = None \<rparr> = []"
    by simp
  have k: "path_key ([''photos''] @ [''b'']) = ''/photos/b/''"
    by (simp add: path_key_def)
  have k': "path_key [''photos'', ''b''] = ''/photos/b/''"
    by (simp add: path_key_def)
  have h9: "b_missing = ?s1\<lparr>pathCache := (pathCache ?s1)(path_key ([''photos''] @ [''b'']) \<mapsto> None)\<rparr>"
    by (simp add: b_missing_def k')
  have h10: "b_missing = run [] b_missing"
    by (simp add: run_def)
  have sp: "sent photos_resolved = [drive_request (metadata_query ''root'' ''photos'') authorized_options]"
    by (simp add: photos_resolved_def)
  note t = missing_segment_stops_the_walk [OF h1 h2 h3 h4 h5 h6 h7 h8 h9 h10]
  from t have a: "getMetadata ''photos/b/c'' ?s = (Inr None, b_missing)"
    by (rule conjunct1)
  from t have b: "pathCache b_missing ''/photos/b/'' = Some None"
    by (simp only: k)
  from t have c: "cache_get (pathCache b_missing) ''/photos/b/'' = None"
    by (simp only: k)
  have again: "request (metadata_query (id' photos) (escape_quotes ''b'')) b_missing
              = (Inr \<lparr> files = [], nextPageToken = None \<rparr>, ?t2)"
    by (simp add: request.simps authorize_def fetch_drive_def b_missing_def photos_resolved_def
        constructor_def Let_def authorized_options_def page_def photos_def escape_quotes_def)
  have q1: "segments ''photos/b'' = [''photos''] @ ''b'' # []
            \<and> cache_get (pathCache b_missing) (path_key ([''photos''] @ [''b''])) = None"
    by (simp add: segments_def k' b_missing_def cache_get_def)
  have q2: "request (metadata_query (id' photos) (escape_quotes ''b'')) b_missing
              = (Inr \<lparr> files = [], nextPageToken = None \<rparr>, ?t2)
            \<and> files \<lparr> files = [], nextPageToken = None \<rparr> = []"
    using again by simp
  from t [THEN conjunct2, THEN conjunct2, THEN conjunct2, THEN conjunct1, rule_format, OF q1,
          THEN conjunct2, rule_format, OF q2]
  have e: "getMetadata ''photos/b'' b_missing =
       (Inr None,
        b_missing
          \<lparr>now := 2300, drive_replies := [],
            sent := sent b_missing @ [drive_request (metadata_query ''d1'' ''b'') authorized_options],
            pathCache := (pathCache b_missing)(''/photos/b/'' \<mapsto> None)\<rparr>)"
    by (simp add: k')
  from h4 sp a b c e show ?thesis
    by (intro conjI)
qed


section \<open>Resolving a path twice\<close>

text \<open>
  Claim C2, as stated, covers the not-found outcome: a second resolution would return it
  again with no network call. A path that resolved to not-found leaves \<^verbatim>\<open>undefined\<close>
  in the cache, which the test \<^verbatim>\<open>!this.pathCache[path]\<close> does not tell from an absent
  key, so the second resolution queries the endpoint again.
\<close>

theorem second_resolution_of_missing_path_counterexample:
  "fst (getMetadata ''a'' (constructor authorized_options lonely_world)) = Inr None
   \<and> fst (getMetadata ''a'' (snd (getMetadata ''a'' (constructor authorized_options lonely_world)))) = Inr None
   \<and> sent (snd (getMetadata ''a'' (snd (getMetadata ''a'' (constructor authorized_options lonely_world)))))
       = sent (snd (getMetadata ''a'' (constructor authorized_options lonely_world)))
           @ [drive_request (metadata_query ''root'' ''a'') authorized_options]"
proof -
  let ?s = "constructor authorized_options lonely_world"
  let ?s1 = "?s\<lparr>now := 2100, drive_replies := [page 2200 []],
        sent := [drive_request (metadata_query ''root'' ''a'') authorized_options],
        pathCache := (pathCache ?s)(''/a/'' \<mapsto> None)\<rparr>"
  have one: "getMetadata ''a'' ?s = (Inr None, ?s1)"
    by (simp add: eval_simps lonely_world_def escape_quotes_def)
  have two: "getMetadata ''a'' ?s1 =
      (Inr None, ?s1\<lparr>now := 2200, drive_replies := [],
         sent := [drive_request (metadata_query ''root'' ''a'') authorized_options,
                  drive_request (metadata_query ''root'' ''a'') authorized_options]\<rparr>)"
    by (simp add: eval_simps lonely_world_def escape_quotes_def)
  show ?thesis
    by (simp only: one two fst_conv snd_conv) simp
qed

text \<open>
  Claim C2, amended. For every path string whose resolution returns a RemoteObject,
  resolving it a second time, with nothing in between, returns the identical object and
  leaves the instance and the world untouched: no fetch is issued. A path whose resolution
  returns not-found has no truthy cache entry afterwards, so its second resolution is not
  answered from the cache: with the root cached and the token still valid, it sends a
  fetch to the listing endpoint again.
\<close>

theorem resolution_idempotent_when_found:
  "(fst (getMetadata p s) = Inr (Some m) \<longrightarrow>
      getMetadata p (snd (getMetadata p s)) = (Inr (Some m), snd (getMetadata p s)))
   \<and> (fst (getMetadata p s) = Inr None \<longrightarrow>
        cache_get (pathCache (snd (getMetadata p s))) (join [''/'', p, ''/'']) = None)
   \<and> (fst (getMetadata p s) = Inr None \<and> cache_get (pathCache s) ''/'' \<noteq> None
        \<and> \<not> expired (snd (getMetadata p s)) \<longrightarrow>
        (\<exists>q more. sent (snd (getMetadata p (snd (getMetadata p s)))) =
           sent (snd (getMetadata p s)) @ drive_request q (options (snd (getMetadata p s))) # more))"
proof (intro conjI impI)
  assume "fst (getMetadata p s) = Inr (Some m)"
  then have "cache_get (pathCache (snd (getMetadata p s))) (path_key (segments p)) = Some m"
    by (rule getMetadata_found_cached)
  then show "getMetadata p (snd (getMetadata p s)) = (Inr (Some m), snd (getMetadata p s))"
    by (rule getMetadata_hit)
next
  assume "fst (getMetadata p s) = Inr None"
  then show "cache_get (pathCache (snd (getMetadata p s))) (join [''/'', p, ''/'']) = None"
    by (simp only: join_key getMetadata_missing_uncached)
next
  assume "fst (getMetadata p s) = Inr None \<and> cache_get (pathCache s) ''/'' \<noteq> None
        \<and> \<not> expired (snd (getMetadata p s))"
  then show "\<exists>q more. sent (snd (getMetadata p (snd (getMetadata p s)))) =
           sent (snd (getMetadata p s)) @ drive_request q (options (snd (getMetadata p s))) # more"
    using getMetadata_requeries [of p s] by blast
qed

theorem resolution_idempotent_when_found_witness:
  "getMetadata ''photos'' (snd (getMetadata ''photos'' (constructor authorized_options photos_world)))
     = (Inr (Some photos), snd (getMetadata ''photos'' (constructor authorized_options photos_world)))
   \<and> cache_get (pathCache (snd (getMetadata ''a'' (constructor authorized_options lonely_world))))
         (join [''/'', ''a'', ''/'']) = None
   \<and> (\<exists>q more. sent (snd (getMetadata ''a'' (snd (getMetadata ''a'' (constructor authorized_options lonely_world))))) =
           sent (snd (getMetadata ''a'' (constructor authorized_options lonely_world)))
             @ drive_request q (options (snd (getMetadata ''a'' (constructor authorized_options lonely_world)))) # more)"
proof -
  let ?s = "constructor authorized_options photos_world"
  let ?t = "constructor authorized_options lonely_world"
  have "getMetadata ''photos'' ?s =
      (Inr (Some photos), ?s\<lparr>now := 2100, drive_replies := [page 2200 [], page 2300 []],
        sent := [drive_request (metadata_query ''root'' ''photos'') authorized_options],
        pathCache := (pathCache ?s)(''/photos/'' \<mapsto> Some photos)\<rparr>)"
    by (simp add: eval_simps photos_world_def escape_quotes_def)
  then have found: "fst (getMetadata ''photos'' ?s) = Inr (Some photos)"
    by simp
  have run: "getMetadata ''a'' ?t = (Inr None, ?t\<lparr>now := 2100, drive_replies := [page 2200 []],
        sent := [drive_request (metadata_query ''root'' ''a'') authorized_options],
        pathCache := (pathCache ?t)(''/a/'' \<mapsto> None)\<rparr>)"
    by (simp add: eval_simps lonely_world_def escape_quotes_def)
  then have missing: "fst (getMetadata ''a'' ?t) = Inr None"
    by simp
  have root: "cache_get (pathCache ?t) ''/'' \<noteq> None"
    by (simp add: cache_get_def constructor_def Let_def)
  have valid: "\<not> expired (snd (getMetadata ''a'' ?t))"
    unfolding run snd_conv
    by (simp add: expired_def constructor_def Let_def authorized_options_def)
  from missing root valid
  have third: "fst (getMetadata ''a'' ?t) = Inr None \<and> cache_get (pathCache ?t) ''/'' \<noteq> None
        \<and> \<not> expired (snd (getMetadata ''a'' ?t))"
    by simp
  from resolution_idempotent_when_found [of "''photos''" ?s photos, THEN conjunct1, rule_format, OF found]
       resolution_idempotent_when_found [of "''a''" ?t photos, THEN conjunct2, THEN conjunct1, rule_format, OF missing]
       resolution_idempotent_when_found [of "''a''" ?t photos, THEN conjunct2, THEN conjunct2, rule_format, OF third]
  show ?thesis
    by (intro conjI)
qed


section \<open>Retry under the rate limit\<close>

text \<open>
  Claim C3. For every query: while the decoded response carries an error whose message
  begins with the rate-limit marker, the executor issues the identical request again, with
  no delay of its own and however many times it takes. So when the endpoint answers a
  query with any number of rate-limit errors and then with something else (the token held
  staying valid meanwhile), the executor has sent one identical fetch per answer, and its
  outcome is that last answer's: the listing, returned with no error visible to the caller,
  or, for an error whose message does not begin with the marker, a failure carrying the
  HTTP status and the server's message. In any state at all, a rate-limit answer after a
  successful \<^verbatim>\<open>authorize\<close> makes the executor start over with the same parameters.
\<close>

theorem rate_limit_retry_transparent:
  assumes "drive_replies s = limited @ r # rest"
    and "\<forall>x \<in> set limited. rate_limited x"
    and "\<not> rate_limited r"
    and "token_outlasts s limited"
  shows "request params s =
           (case d_body r of
              FileList fs token \<Rightarrow> Inr \<lparr> files = fs, nextPageToken = token \<rparr>
            | ApiError message \<Rightarrow> Inl (Thrown (d_status r) message),
            s\<lparr>now := d_arrive r, drive_replies := rest,
              sent := sent s @ replicate (length limited + 1) (drive_request params (options s))\<rparr>)
       \<and> (\<forall>s0 s1 x xs.
             authorize s0 = (Inr (), s1) \<and> drive_replies s1 = x # xs \<and> rate_limited x
             \<longrightarrow> request params s0 = request params (answered params x xs s1))"
proof
  show "request params s =
           (case d_body r of
              FileList fs token \<Rightarrow> Inr \<lparr> files = fs, nextPageToken = token \<rparr>
            | ApiError message \<Rightarrow> Inl (Thrown (d_status r) message),
            s\<lparr>now := d_arrive r, drive_replies := rest,
              sent := sent s @ replicate (length limited + 1) (drive_request params (options s))\<rparr>)"
    using assms by (rule request_retries)
next
  show "\<forall>s0 s1 x xs.
          authorize s0 = (Inr (), s1) \<and> drive_replies s1 = x # xs \<and> rate_limited x
          \<longrightarrow> request params s0 = request params (answered params x xs s1)"
  proof (intro allI impI)
    fix s0 s1 x xs
    assume h: "authorize s0 = (Inr (), s1) \<and> drive_replies s1 = x # xs \<and> rate_limited x"
    then show "request params s0 = request params (answered params x xs s1)"
      using request_authorized [of s0 s1 x xs params]
      by (auto simp: rate_limited_def split: drive_json.splits)
  qed
qed

theorem rate_limit_retry_transparent_witness:
  "request (list_query ''root'') (constructor authorized_options throttled_world) =
     (Inr \<lparr> files = [report_pdf], nextPageToken = None \<rparr>,
      (constructor authorized_options throttled_world)
        \<lparr>now := 2300, drive_replies := [],
          sent := replicate 3 (drive_request (list_query ''root'') authorized_options)\<rparr>)"
proof -
  let ?s = "constructor authorized_options throttled_world"
  let ?r = "\<lparr> d_arrive = 2300, d_status = 200, d_body = FileList [report_pdf] None \<rparr>"
  have h1: "drive_replies ?s = [throttle 2100, throttle 2200] @ ?r # []"
    by (simp add: constructor_def Let_def throttled_world_def)
  have h2: "\<forall>x \<in> set [throttle 2100, throttle 2200]. rate_limited x"
    by (simp add: rate_limited_def throttle_def)
  have h3: "\<not> rate_limited ?r"
    by (simp add: rate_limited_def)
  have h4: "token_outlasts ?s [throttle 2100, throttle 2200]"
    by (simp add: token_outlasts_def constructor_def Let_def authorized_options_def
        throttled_world_def throttle_def)
  have o: "options ?s = authorized_options" "sent ?s = []"
    by (simp_all add: constructor_def Let_def authorized_options_def throttled_world_def)
  from rate_limit_retry_transparent [OF h1 h2 h3 h4, of "list_query ''root''"]
  have "request (list_query ''root'') ?s =
           (case d_body ?r of
              FileList fs token \<Rightarrow> Inr \<lparr> files = fs, nextPageToken = token \<rparr>
            | ApiError message \<Rightarrow> Inl (Thrown (d_status ?r) message),
            ?s\<lparr>now := d_arrive ?r, drive_replies := [],
              sent := sent ?s @ replicate (length [throttle 2100, throttle 2200] + 1)
                                  (drive_request (list_query ''root'') (options ?s))\<rparr>)"
    by (rule conjunct1)
  then show ?thesis
    by (simp add: o numeral_3_eq_3)
qed


section \<open>Token lifecycle\<close>

text \<open>
  Claim C4. \<^verbatim>\<open>authorize()\<close> performs no network call when the held expiry is set and
  still in the future (the clock reads milliseconds since the epoch, so it is not
  negative): the instance and the world are left as they were. Otherwise it performs one
  exchange at the token endpoint, and when the endpoint grants a token with a declared
  lifetime, the new expiry is the clock reading after the answer plus the lifetime less
  300 seconds, in milliseconds. Consequently, of a call that finds no valid token, a
  second call at any instant \<open>t2\<close> before that expiry and a third call at any instant
  \<open>t3\<close> at or after it, the first two perform one exchange in total and the third
  performs exactly one more.
\<close>

theorem token_lifecycle:
  assumes "expired s" and "token_replies s = r # rs" and "t_body r = Granted token lifetime"
    and "s1 = snd (authorize s)"
    and "0 \<le> t2" and "t2 < t_arrive r + (lifetime - 300) * 1000"
    and "s2 = snd (authorize (s1\<lparr>now := t2\<rparr>))"
    and "t_arrive r + (lifetime - 300) * 1000 \<le> t3"
    and "s3 = snd (authorize (s2\<lparr>now := t3\<rparr>))"
  shows "(\<forall>s' e. expires_on (options s') = Some e \<and> 0 \<le> now s' \<and> now s' < e
            \<longrightarrow> authorize s' = (Inr (), s'))
       \<and> fst (authorize s) = Inr ()
       \<and> exchanges s1 = exchanges s + 1
       \<and> now s1 = t_arrive r
       \<and> expires_on (options s1) = Some (now s1 + (lifetime - 300) * 1000)
       \<and> access_token (options s1) = Some token
       \<and> fst (authorize (s1\<lparr>now := t2\<rparr>)) = Inr ()
       \<and> s2 = s1\<lparr>now := t2\<rparr>
       \<and> exchanges s2 = exchanges s + 1
       \<and> exchanges s3 = exchanges s + 2"
proof -
  have fresh: "\<forall>s' e. expires_on (options s') = Some e \<and> 0 \<le> now s' \<and> now s' < e
                 \<longrightarrow> authorize s' = (Inr (), s')"
    by (auto intro: authorize_fresh)
  note g = authorize_granted [OF assms(1-3)]
  have s1: "s1 = s\<lparr>now := t_arrive r, token_replies := rs,
                    sent := sent s @ [token_request (options s)],
                    options := (options s)\<lparr>expires_on := Some (t_arrive r + (lifetime - 300) * 1000),
                                           access_token := Some token\<rparr>\<rparr>"
    using g assms(4) by simp
  have ex1: "exchanges s1 = exchanges s + 1"
    using authorize_exchanges [of s] assms(1,4) by simp
  have second: "authorize (s1\<lparr>now := t2\<rparr>) = (Inr (), s1\<lparr>now := t2\<rparr>)"
    using assms(5,6) by (intro authorize_fresh [where e = "t_arrive r + (lifetime - 300) * 1000"])
                         (simp_all add: s1)
  then have s2: "s2 = s1\<lparr>now := t2\<rparr>"
    using assms(7) by simp
  have ex2: "exchanges s2 = exchanges s + 1"
    using ex1 by (simp add: s2 exchanges_def)
  have "expired (s2\<lparr>now := t3\<rparr>)"
    using assms(8) by (simp add: expired_def s2 s1)
  then have "exchanges s3 = exchanges (s2\<lparr>now := t3\<rparr>) + 1"
    using authorize_exchanges [of "s2\<lparr>now := t3\<rparr>"] assms(9) by simp
  then have ex3: "exchanges s3 = exchanges s + 2"
    using ex2 by (simp add: exchanges_def)
  show ?thesis
    using fresh g s1 ex1 second s2 ex2 ex3 by simp
qed

theorem token_lifecycle_witness:
  "exchanges (snd (authorize (constructor example_options granting_world)))
     = exchanges (constructor example_options granting_world) + 1
   \<and> exchanges (snd (authorize ((snd (authorize (constructor example_options granting_world)))\<lparr>now := 5000\<rparr>)))
     = exchanges (constructor example_options granting_world) + 1
   \<and> exchanges (snd (authorize ((snd (authorize ((snd (authorize (constructor example_options granting_world)))\<lparr>now := 5000\<rparr>)))\<lparr>now := 3301200\<rparr>)))
     = exchanges (constructor example_options granting_world) + 2"
proof -
  let ?s = "constructor example_options granting_world"
  let ?r = "\<lparr> t_arrive = 1200, t_status = 200, t_body = Granted ''ya29.a'' 3600 \<rparr>"
  let ?rs = "[\<lparr> t_arrive = 3400000, t_status = 200, t_body = Granted ''ya29.b'' 3600 \<rparr>]"
  have h1: "expired ?s"
    by (simp add: expired_def constructor_def Let_def example_options_def)
  have h2: "token_replies ?s = ?r # ?rs"
    by (simp add: constructor_def Let_def granting_world_def)
  have h3: "t_body ?r = Granted ''ya29.a'' 3600"
    by simp
  have h5: "(0::int) \<le> 5000" and h6: "(5000::int) < t_arrive ?r + (3600 - 300) * 1000"
    and h8: "t_arrive ?r + (3600 - 300) * 1000 \<le> (3301200::int)"
    by simp_all
  from token_lifecycle [OF h1 h2 h3 refl h5 h6 refl h8 refl]
  show ?thesis
    by (elim conjE) (intro conjI, assumption+)
qed


section \<open>Pagination\<close>

text \<open>
  Claim C5, as stated, promises \<open>ceil(N/P)\<close> page fetches for a directory of \<open>N\<close>
  children served in pages of size \<open>P\<close>. The loop is a \<^verbatim>\<open>do ... while\<close>: it asks
  for a page before it tests anything, so an empty directory costs one fetch, not none.
\<close>

theorem empty_folder_one_fetch_counterexample:
  "fst (listFiles ''root'' (constructor authorized_options empty_folder_world)) = Inr []
   \<and> length (sent (snd (listFiles ''root'' (constructor authorized_options empty_folder_world))))
       = length (sent (constructor authorized_options empty_folder_world)) + 1
   \<and> length (sent (snd (listFiles ''root'' (constructor authorized_options empty_folder_world))))
       - length (sent (constructor authorized_options empty_folder_world))
       \<noteq> (length ([] :: metadata list) + 100 - 1) div 100"
proof -
  let ?s = "constructor authorized_options empty_folder_world"
  let ?final = "\<lparr> d_arrive = 2100, d_status = 200, d_body = FileList [] None \<rparr>"
  have h1: "drive_replies ?s = [] @ ?final # []"
    by (simp add: constructor_def Let_def empty_folder_world_def chunks.simps)
  have h2: "\<forall>x \<in> set []. is_listing x \<and> token_set (page_token x)"
    by simp
  have h3: "is_listing ?final" and h4: "\<not> token_set (page_token ?final)"
    by (simp_all add: is_listing_def page_token_def token_set_def)
  have h5: "token_outlasts ?s []"
    by (simp add: token_outlasts_def constructor_def Let_def authorized_options_def
        empty_folder_world_def)
  have "listFiles ''root'' ?s =
          (Inr ([] @ concat (map page_files ([] @ [?final]))),
           ?s\<lparr>now := d_arrive ?final, drive_replies := [],
               sent := sent ?s @ map (\<lambda>t. drive_request (with_token t (list_query ''root'')) (options ?s))
                                    (None # map page_token [])\<rparr>)"
    unfolding listFiles_def by (rule listFiles_loop_pages [OF h1 h2 h3 h4 h5])
  then show ?thesis
    by (simp add: page_files_def)
qed

text \<open>
  Claim C5, amended. For every parent identifier, listing repeatedly calls the query with
  an evolving continuation token starting with none, appends each page's objects to the
  accumulator, and stops exactly when a page has no continuation token; a directory with
  \<open>N\<close> matching children split across pages of size \<open>P\<close> yields exactly \<open>N\<close>
  objects in the server's order with \<open>max(1, ceil(N/P))\<close> page fetches, and the listing
  excludes trashed objects and the one reserved filename.

  The theorem takes an endpoint that answers with pages carrying a token and then one
  carrying none, the access token staying valid meanwhile. The fetches sent are then one
  per page; the first has the parameter \<^verbatim>\<open>pageToken\<close> at \<open>0\<close>, which
  \<^verbatim>\<open>stringify\<close> leaves out of the URL, and each later one has it at the token of the
  page before, at the head of the query string; every other parameter is the same in
  all of them, the filter \<^verbatim>\<open>q\<close> among them.
\<close>

theorem listing_drains_all_pages:
  assumes "drive_replies s = pages @ final # rest"
    and "\<forall>x \<in> set pages. is_listing x \<and> token_set (page_token x)"
    and "is_listing final" and "\<not> token_set (page_token final)"
    and "token_outlasts s pages"
  shows "listFiles ident s =
           (Inr (concat (map page_files (pages @ [final]))),
            s\<lparr>now := d_arrive final, drive_replies := rest,
              sent := sent s @ map (\<lambda>t. drive_request (with_token t (list_query ident)) (options s))
                                   (None # map page_token pages)\<rparr>)
       \<and> (\<forall>t. map_of (with_token t (list_query ident)) ''q'' =
                Some (JStr ([squote] @ ident @ [squote]
                            @ '' in parents and trashed = false AND name != ''
                            @ [squote] @ ''.password'' @ [squote])))
       \<and> (\<forall>P children tok at.
             0 < P \<and> (\<forall>i. tok i \<noteq> []) \<and> pages @ [final] = serve 0 tok at (chunks P children)
             \<longrightarrow> concat (map page_files (pages @ [final])) = children
                 \<and> length (None # map page_token pages) = max 1 ((length children + P - 1) div P))
       \<and> map_of (with_token None (list_query ident)) ''pageToken'' = Some (JNum 0)
       \<and> \<not> truthy (JNum 0)
       \<and> (\<forall>x \<in> set pages. \<exists>t. page_token x = Some t \<and> t \<noteq> []
             \<and> map_of (with_token (page_token x) (list_query ident)) ''pageToken'' = Some (JStr t)
             \<and> stringify (with_token (page_token x) (list_query ident)) =
                 ''pageToken='' @ encodeURIComponent t @ ''&'' @ stringify (list_query ident))
       \<and> (\<forall>t k. k \<noteq> ''pageToken'' \<longrightarrow>
             map_of (with_token t (list_query ident)) k = map_of (list_query ident) k)
       \<and> stringify (with_token None (list_query ident)) =
           ''pageSize=1000&q=''
             @ encodeURIComponent ([squote] @ ident @ [squote]
                                   @ '' in parents and trashed = false AND name != ''
                                   @ [squote] @ ''.password'' @ [squote])
             @ ''&fields='' @ encodeURIComponent (''nextPageToken, files('' @ FILE_ATTRS @ '')'')
             @ ''&orderBy=folder%2C%20name''"
proof (intro conjI allI impI ballI)
  show "listFiles ident s =
           (Inr (concat (map page_files (pages @ [final]))),
            s\<lparr>now := d_arrive final, drive_replies := rest,
              sent := sent s @ map (\<lambda>t. drive_request (with_token t (list_query ident)) (options s))
                                   (None # map page_token pages)\<rparr>)"
    using listFiles_loop_pages [OF assms, of None "list_query ident" "[]"]
    by (simp add: listFiles_def)
next
  fix t
  show "map_of (with_token t (list_query ident)) ''q'' =
          Some (JStr ([squote] @ ident @ [squote]
                      @ '' in parents and trashed = false AND name != ''
                      @ [squote] @ ''.password'' @ [squote]))"
    by (simp add: with_token_def set_pageToken_def list_query_def split: option.splits)
next
  fix P :: nat and children tok at
  assume h: "0 < P \<and> (\<forall>i. tok i \<noteq> []) \<and> pages @ [final] = serve 0 tok at (chunks P children)"
  then have "concat (map page_files (pages @ [final])) = concat (chunks P children)"
    by (simp only: serve_files)
  then show "concat (map page_files (pages @ [final])) = children"
    by (simp only: concat_chunks)
  have "length (pages @ [final]) = length (chunks P children)"
    using h by (simp only: length_serve)
  moreover have "length (chunks P children) = max 1 ((length children + P - 1) div P)"
    using h by (intro length_chunks) simp
  ultimately have "length (pages @ [final]) = max 1 ((length children + P - 1) div P)"
    by (rule trans)
  then show "length (None # map page_token pages) = max 1 ((length children + P - 1) div P)"
    by simp
next
  show "map_of (with_token None (list_query ident)) ''pageToken'' = Some (JNum 0)"
    by (simp add: with_token_def list_query_def)
next
  show "\<not> truthy (JNum 0)"
    by simp
next
  fix x
  assume "x \<in> set pages"
  with assms(2) have "token_set (page_token x)"
    by simp
  then obtain t where t: "page_token x = Some t" "t \<noteq> []"
    by (auto simp: token_set_def split: option.splits)
  have "map_of (with_token (Some t) (list_query ident)) ''pageToken'' = Some (JStr t)"
    using t(2) by (simp add: with_token_def set_pageToken_def list_query_def)
  moreover have "stringify (with_token (Some t) (list_query ident)) =
                 ''pageToken='' @ encodeURIComponent t @ ''&'' @ stringify (list_query ident)"
    using t(2) by (rule stringify_with_token)
  ultimately show "\<exists>t. page_token x = Some t \<and> t \<noteq> []
             \<and> map_of (with_token (page_token x) (list_query ident)) ''pageToken'' = Some (JStr t)
             \<and> stringify (with_token (page_token x) (list_query ident)) =
                 ''pageToken='' @ encodeURIComponent t @ ''&'' @ stringify (list_query ident)"
    using t by simp
next
  fix t k
  assume "k \<noteq> ''pageToken''"
  then show "map_of (with_token t (list_query ident)) k = map_of (list_query ident) k"
    by (simp add: with_token_def set_pageToken_def list_query_def split: option.splits)
next
  show "stringify (with_token None (list_query ident)) =
           ''pageSize=1000&q=''
             @ encodeURIComponent ([squote] @ ident @ [squote]
                                   @ '' in parents and trashed = false AND name != ''
                                   @ [squote] @ ''.password'' @ [squote])
             @ ''&fields='' @ encodeURIComponent (''nextPageToken, files('' @ FILE_ATTRS @ '')'')
             @ ''&orderBy=folder%2C%20name''"
    by (simp only: with_token_None stringify_list_query)
qed

theorem listing_drains_all_pages_witness:
  "listFiles ''root'' (constructor authorized_options two_page_world) =
     (Inr [report_pdf, notes_txt],
      (constructor authorized_options two_page_world)
        \<lparr>now := 2100, drive_replies := [],
          sent := [Fetch ''GET''
                     (DRIVE_URL @ ''?pageSize=1000&q='' @ [squote] @ ''root'' @ [squote]
                        @ ''%20in%20parents%20and%20trashed%20%3D%20false%20AND%20name%20!%3D%20''
                        @ [squote] @ ''.password'' @ [squote]
                        @ ''&fields=nextPageToken%2C%20files(id%2C%20name%2C%20mimeType%2C%20size%2C%20modifiedTime%2C%20description%2C%20iconLink%2C%20thumbnailLink%2C%20imageMediaMetadata)''
                        @ ''&orderBy=folder%2C%20name'')
                     [(''Authorization'', ''Bearer ya29.a'')] [],
                   Fetch ''GET''
                     (DRIVE_URL @ ''?pageToken=next&pageSize=1000&q='' @ [squote] @ ''root'' @ [squote]
                        @ ''%20in%20parents%20and%20trashed%20%3D%20false%20AND%20name%20!%3D%20''
                        @ [squote] @ ''.password'' @ [squote]
                        @ ''&fields=nextPageToken%2C%20files(id%2C%20name%2C%20mimeType%2C%20size%2C%20modifiedTime%2C%20description%2C%20iconLink%2C%20thumbnailLink%2C%20imageMediaMetadata)''
                        @ ''&orderBy=folder%2C%20name'')
                     [(''Authorization'', ''Bearer ya29.a'')] []]\<rparr>)
   \<and> map_of (with_token (Some ''next'') (list_query ''root'')) ''pageToken'' = Some (JStr ''next'')
   \<and> length [None, Some ''next''] = max 1 ((length [report_pdf, notes_txt] + 1 - 1) div 1)"
proof -
  let ?s = "constructor authorized_options two_page_world"
  let ?page = "\<lparr> d_arrive = 2100, d_status = 200, d_body = FileList [report_pdf] (Some ''next'') \<rparr>"
  let ?final = "\<lparr> d_arrive = 2100, d_status = 200, d_body = FileList [notes_txt] None \<rparr>"
  have c: "serve 0 (\<lambda>i. ''next'') (\<lambda>i. 2100) (chunks 1 [report_pdf, notes_txt]) = [?page] @ [?final]"
    by (simp add: chunks.simps)
  have h1: "drive_replies ?s = [?page] @ ?final # []"
    using c by (simp add: constructor_def Let_def two_page_world_def)
  have h2: "\<forall>x \<in> set [?page]. is_listing x \<and> token_set (page_token x)"
    by (simp add: is_listing_def page_token_def token_set_def)
  have h3: "is_listing ?final" and h4: "\<not> token_set (page_token ?final)"
    by (simp_all add: is_listing_def page_token_def token_set_def)
  have h5: "token_outlasts ?s [?page]"
    by (simp add: token_outlasts_def constructor_def Let_def authorized_options_def
        two_page_world_def)
  have o: "options ?s = authorized_options" "sent ?s = []"
    by (simp_all add: constructor_def Let_def authorized_options_def two_page_world_def)
  have p: "page_token ?page = Some ''next''"
    by (simp add: page_token_def)
  note t = listing_drains_all_pages [OF h1 h2 h3 h4 h5, of "''root''"]
  from t have run: "listFiles ''root'' ?s =
           (Inr (concat (map page_files ([?page] @ [?final]))),
            ?s\<lparr>now := d_arrive ?final, drive_replies := [],
              sent := sent ?s @ map (\<lambda>t. drive_request (with_token t (list_query ''root'')) (options ?s))
                                   (None # map page_token [?page])\<rparr>)"
    by (rule conjunct1)
  from t have first: "stringify (with_token None (list_query ''root'')) =
           ''pageSize=1000&q=''
             @ encodeURIComponent ([squote] @ ''root'' @ [squote]
                                   @ '' in parents and trashed = false AND name != ''
                                   @ [squote] @ ''.password'' @ [squote])
             @ ''&fields='' @ encodeURIComponent (''nextPageToken, files('' @ FILE_ATTRS @ '')'')
             @ ''&orderBy=folder%2C%20name''"
    by (elim conjE)
  from t have "\<forall>x \<in> set [?page]. \<exists>t. page_token x = Some t \<and> t \<noteq> []
             \<and> map_of (with_token (page_token x) (list_query ''root'')) ''pageToken'' = Some (JStr t)
             \<and> stringify (with_token (page_token x) (list_query ''root'')) =
                 ''pageToken='' @ encodeURIComponent t @ ''&'' @ stringify (list_query ''root'')"
    by (elim conjE)
  then have later: "map_of (with_token (Some ''next'') (list_query ''root'')) ''pageToken'' = Some (JStr ''next'')"
    "stringify (with_token (Some ''next'') (list_query ''root'')) =
       ''pageToken='' @ encodeURIComponent ''next'' @ ''&'' @ stringify (with_token None (list_query ''root''))"
    by (simp_all add: p with_token_None)
  have url: "stringify (with_token None (list_query ''root'')) =
           ''pageSize=1000&q=''
             @ ([squote] @ ''root'' @ [squote]
                @ ''%20in%20parents%20and%20trashed%20%3D%20false%20AND%20name%20!%3D%20''
                @ [squote] @ ''.password'' @ [squote])
             @ ''&fields=''
             @ ''nextPageToken%2C%20files(id%2C%20name%2C%20mimeType%2C%20size%2C%20modifiedTime%2C%20description%2C%20iconLink%2C%20thumbnailLink%2C%20imageMediaMetadata)''
             @ ''&orderBy=folder%2C%20name''"
    using first by (simp only: encoded_list_filter encoded_list_fields encoded_plain)
  have header: "bearer authorized_options = ''Bearer ya29.a''"
    by (simp add: bearer_def authorized_options_def)
  have a: "listFiles ''root'' ?s =
     (Inr [report_pdf, notes_txt],
      ?s\<lparr>now := 2100, drive_replies := [],
          sent := [Fetch ''GET''
                     (DRIVE_URL @ ''?pageSize=1000&q='' @ [squote] @ ''root'' @ [squote]
                        @ ''%20in%20parents%20and%20trashed%20%3D%20false%20AND%20name%20!%3D%20''
                        @ [squote] @ ''.password'' @ [squote]
                        @ ''&fields=nextPageToken%2C%20files(id%2C%20name%2C%20mimeType%2C%20size%2C%20modifiedTime%2C%20description%2C%20iconLink%2C%20thumbnailLink%2C%20imageMediaMetadata)''
                        @ ''&orderBy=folder%2C%20name'')
                     [(''Authorization'', ''Bearer ya29.a'')] [],
                   Fetch ''GET''
                     (DRIVE_URL @ ''?pageToken=next&pageSize=1000&q='' @ [squote] @ ''root'' @ [squote]
                        @ ''%20in%20parents%20and%20trashed%20%3D%20false%20AND%20name%20!%3D%20''
                        @ [squote] @ ''.password'' @ [squote]
                        @ ''&fields=nextPageToken%2C%20files(id%2C%20name%2C%20mimeType%2C%20size%2C%20modifiedTime%2C%20description%2C%20iconLink%2C%20thumbnailLink%2C%20imageMediaMetadata)''
                        @ ''&orderBy=folder%2C%20name'')
                     [(''Authorization'', ''Bearer ya29.a'')] []]\<rparr>)"
    unfolding run
    by (simp add: o p page_files_def drive_request_def later(2) url header encoded_plain)
  have "0 < (1::nat) \<and> (\<forall>i::nat. ''next'' \<noteq> [])
          \<and> [?page] @ [?final] = serve 0 (\<lambda>i. ''next'') (\<lambda>i. 2100) (chunks 1 [report_pdf, notes_txt])"
    using c by simp
  from t [THEN conjunct2, THEN conjunct2, THEN conjunct1, rule_format, OF this]
  have b: "length [None, Some ''next''] = max 1 ((length [report_pdf, notes_txt] + 1 - 1) div 1)"
    by (simp add: page_token_def)
  from a later(1) b show ?thesis
    by (intro conjI)
qed


section \<open>Normalised paths as cache keys\<close>

text \<open>
  Claim C6, as stated, has the percent-escapes of each segment decoded in the cache key.
  The key is built from the segments as they are written; only the name that goes into
  the filter is decoded. So \<^verbatim>\<open>a%20b\<close> is cached under \<^verbatim>\<open>/a%20b/\<close>, not under
  \<^verbatim>\<open>/a b/\<close>, and the two spellings of one name have two keys.
\<close>

theorem cache_key_keeps_escapes_counterexample:
  "spec_cache_key ''a%20b'' = Some ''/a b/''
   \<and> join [''/'', ''a%20b'', ''/''] = ''/a%20b/''
   \<and> Some (join [''/'', ''a%20b'', ''/'']) \<noteq> spec_cache_key ''a%20b''
   \<and> join [''/'', ''a%20b'', ''/''] \<noteq> join [''/'', ''a b'', ''/'']"
  by (simp add: spec_cache_key_def segments_def decodeURIComponent_def hexval_def path_key_def join_def char_of_eq_iff)

text \<open>
  Claim C6, amended. The cache key for every input path is the normalized form with
  repeated separators collapsed, a single leading and a single trailing separator ensured,
  and the percent-escapes of each segment kept as written (they are decoded only in the
  name that goes into the filter string); in particular \<^verbatim>\<open>a//b/\<close>, \<^verbatim>\<open>/a/b\<close> and
  \<^verbatim>\<open>a/b\<close> all resolve to the same cache key and the same object, and quote characters
  in a segment name are escaped before interpolation into the filter string.

  The theorem has the key as the separator followed by each non-empty segment and one
  separator, and paths with one key resolve alike in every state. For the filter it takes
  any state that an instance can reach and any segment of a path whose cumulative path
  has no object in the cache: the resolution resolves the parent path (with whatever
  queries that takes), then asks for the segment under the identifier of the parent, with
  the name percent-decoded and a backslash put before each of its quotes, stores the first
  object of the answer under the cumulative path as written, and goes on from there; the
  escaped name reads back as the decoded one.
\<close>

theorem cache_key_is_normalised_path:
  assumes "s = run history (constructor opts w)"
    and "segments p = pre @ n # post"
    and "segments pP = pre"
    and "getMetadata pP s = (Inr (Some m), s0)"
    and "cache_get (pathCache s) (path_key (pre @ [n])) = None"
    and "decodeURIComponent n = Some d"
  shows "join [''/'', path, ''/''] = path_key (segments path)
       \<and> (\<forall>x \<in> set (segments path). x \<noteq> [] \<and> CHR ''/'' \<notin> set x)
       \<and> (\<forall>q t. join [''/'', q, ''/''] = join [''/'', path, ''/''] \<longrightarrow> getMetadata q t = getMetadata path t)
       \<and> join [''/'', ''a//b/'', ''/''] = ''/a/b/''
       \<and> join [''/'', ''/a/b'', ''/''] = ''/a/b/''
       \<and> join [''/'', ''a/b'', ''/''] = ''/a/b/''
       \<and> getMetadata p s =
           (case request (metadata_query (id' m) (escape_quotes d)) s0 of
              (Inl e, s1) \<Rightarrow> (Inl e, s1)
            | (Inr result, s1) \<Rightarrow>
                (case first_file result of
                   None \<Rightarrow> (Inr None, s1\<lparr>pathCache := (pathCache s1)(path_key (pre @ [n]) \<mapsto> None)\<rparr>)
                 | Some f \<Rightarrow>
                     getMetadata p (s1\<lparr>pathCache := (pathCache s1)(path_key (pre @ [n]) \<mapsto> Some f)\<rparr>)))
       \<and> (post = [] \<longrightarrow>
            getMetadata p s =
              (case request (metadata_query (id' m) (escape_quotes d)) s0 of
                 (Inl e, s1) \<Rightarrow> (Inl e, s1)
               | (Inr result, s1) \<Rightarrow>
                   (Inr (first_file result),
                    s1\<lparr>pathCache := (pathCache s1)(path_key (pre @ [n]) \<mapsto> first_file result)\<rparr>)))
       \<and> map_of (metadata_query (id' m) (escape_quotes d)) ''q'' =
           Some (JStr ([squote] @ id' m @ [squote] @ '' in parents and name = '' @ [squote]
                       @ escape_quotes d @ [squote] @ '' and trashed = false''))
       \<and> (\<forall>i < length (escape_quotes d).
             escape_quotes d ! i = squote \<longrightarrow> 0 < i \<and> escape_quotes d ! (i - 1) = backslash)
       \<and> unescape_quotes (escape_quotes d) = d"
proof (intro conjI ballI allI impI)
  have closed: "ancestors_cached (pathCache s)"
    unfolding assms(1) by (rule reachable_ancestors_cached)
  have root: "cache_get (pathCache s) ''/'' \<noteq> None"
    unfolding assms(1) by (rule reachable_root)
  show "join [''/'', path, ''/''] = path_key (segments path)"
    by (rule join_key)
  show "join [''/'', ''a//b/'', ''/''] = ''/a/b/''"
    and "join [''/'', ''/a/b'', ''/''] = ''/a/b/''"
    and "join [''/'', ''a/b'', ''/''] = ''/a/b/''"
    by (simp_all add: join_def)
  show "getMetadata p s =
           (case request (metadata_query (id' m) (escape_quotes d)) s0 of
              (Inl e, s1) \<Rightarrow> (Inl e, s1)
            | (Inr result, s1) \<Rightarrow>
                (case first_file result of
                   None \<Rightarrow> (Inr None, s1\<lparr>pathCache := (pathCache s1)(path_key (pre @ [n]) \<mapsto> None)\<rparr>)
                 | Some f \<Rightarrow>
                     getMetadata p (s1\<lparr>pathCache := (pathCache s1)(path_key (pre @ [n]) \<mapsto> Some f)\<rparr>)))"
    using closed root assms(2-6) by (rule getMetadata_through)
  show "map_of (metadata_query (id' m) (escape_quotes d)) ''q'' =
           Some (JStr ([squote] @ id' m @ [squote] @ '' in parents and name = '' @ [squote]
                       @ escape_quotes d @ [squote] @ '' and trashed = false''))"
    by (simp add: metadata_query_def)
  show "unescape_quotes (escape_quotes d) = d"
    by (rule unescape_escape_quotes)
  {
    assume "post = []"
    then have "segments p = pre @ [n]"
      using assms(2) by simp
    with closed root show "getMetadata p s =
              (case request (metadata_query (id' m) (escape_quotes d)) s0 of
                 (Inl e, s1) \<Rightarrow> (Inl e, s1)
               | (Inr result, s1) \<Rightarrow>
                   (Inr (first_file result),
                    s1\<lparr>pathCache := (pathCache s1)(path_key (pre @ [n]) \<mapsto> first_file result)\<rparr>))"
      using assms(3-6) by (intro getMetadata_through_last)
  }
next
  fix x assume "x \<in> set (segments path)"
  then show "x \<noteq> []" and "CHR ''/'' \<notin> set x"
    using segments_proper by blast+
next
  fix q t assume "join [''/'', q, ''/''] = join [''/'', path, ''/'']"
  then show "getMetadata q t = getMetadata path t"
    by (rule getMetadata_same_key)
next
  fix i assume "i < length (escape_quotes d)" and "escape_quotes d ! i = squote"
  then show "0 < i" and "escape_quotes d ! (i - 1) = backslash"
    using escape_quotes_guarded by blast+
qed

theorem cache_key_is_normalised_path_witness:
  "join [''/'', ''photos//it%27s/'', ''/''] = path_key (segments ''photos//it%27s/'')
   \<and> path_key (segments ''photos//it%27s/'') = ''/photos/it%27s/''
   \<and> getMetadata ''photos'' (constructor authorized_options quoted_world)
       = (Inr (Some photos), quoted_parent)
   \<and> sent quoted_parent = [drive_request (metadata_query ''root'' ''photos'') authorized_options]
   \<and> getMetadata ''photos/it%27s'' (constructor authorized_options quoted_world)
       = (Inr (Some its_txt),
          quoted_parent
            \<lparr>now := 2200, drive_replies := [],
              sent := sent quoted_parent
                @ [drive_request
                     (metadata_query ''d1'' [CHR ''i'', CHR ''t'', backslash, squote, CHR ''s''])
                     authorized_options],
              pathCache := (pathCache quoted_parent)(''/photos/it%27s/'' \<mapsto> Some its_txt)\<rparr>)
   \<and> map_of (metadata_query (id' photos) (escape_quotes [CHR ''i'', CHR ''t'', squote, CHR ''s''])) ''q'' =
           Some (JStr ([squote] @ id' photos @ [squote] @ '' in parents and name = '' @ [squote]
                       @ escape_quotes [CHR ''i'', CHR ''t'', squote, CHR ''s''] @ [squote]
                       @ '' and trashed = false''))
   \<and> escape_quotes [CHR ''i'', CHR ''t'', squote, CHR ''s''] = [CHR ''i'', CHR ''t'', backslash, squote, CHR ''s'']
   \<and> unescape_quotes (escape_quotes [CHR ''i'', CHR ''t'', squote, CHR ''s''])
       = [CHR ''i'', CHR ''t'', squote, CHR ''s'']"
proof -
  let ?s = "constructor authorized_options quoted_world"
  have h1: "?s = run [] (constructor authorized_options quoted_world)"
    by (simp add: run_def)
  have h2: "segments ''photos/it%27s'' = [''photos''] @ ''it%27s'' # []"
    by (simp add: segments_def)
  have h3: "segments ''photos'' = [''photos'']"
    by (simp add: segments_def)
  have h4: "getMetadata ''photos'' ?s = (Inr (Some photos), quoted_parent)"
    by (rule getMetadata_quoted_parent)
  have h5: "cache_get (pathCache ?s) (path_key ([''photos''] @ [''it%27s''])) = None"
    by (simp add: path_key_def cache_get_def constructor_def Let_def)
  have h6: "decodeURIComponent ''it%27s'' = Some [CHR ''i'', CHR ''t'', squote, CHR ''s'']"
    by (simp add: decodeURIComponent_def hexval_def char_of_eq_iff)
  note t = cache_key_is_normalised_path [OF h1 h2 h3 h4 h5 h6, of "''photos//it%27s/''"]
  from t have a: "join [''/'', ''photos//it%27s/'', ''/''] = path_key (segments ''photos//it%27s/'')"
    by (elim conjE)
  from t have b: "map_of (metadata_query (id' photos) (escape_quotes [CHR ''i'', CHR ''t'', squote, CHR ''s''])) ''q'' =
           Some (JStr ([squote] @ id' photos @ [squote] @ '' in parents and name = '' @ [squote]
                       @ escape_quotes [CHR ''i'', CHR ''t'', squote, CHR ''s''] @ [squote]
                       @ '' and trashed = false''))"
    by (elim conjE)
  from t have u: "unescape_quotes (escape_quotes [CHR ''i'', CHR ''t'', squote, CHR ''s''])
                    = [CHR ''i'', CHR ''t'', squote, CHR ''s'']"
    by (elim conjE)
  have c: "path_key (segments ''photos//it%27s/'') = ''/photos/it%27s/''"
    by (simp add: segments_def path_key_def)
  have d: "escape_quotes [CHR ''i'', CHR ''t'', squote, CHR ''s''] = [CHR ''i'', CHR ''t'', backslash, squote, CHR ''s'']"
    by (simp add: escape_quotes_def)
  have sp: "sent quoted_parent = [drive_request (metadata_query ''root'' ''photos'') authorized_options]"
    by (simp add: quoted_parent_def)
  have answer: "request (metadata_query (id' photos) (escape_quotes [CHR ''i'', CHR ''t'', squote, CHR ''s''])) quoted_parent
          = (Inr \<lparr> files = [its_txt], nextPageToken = None \<rparr>,
             quoted_parent\<lparr>now := 2200, drive_replies := [],
               sent := sent quoted_parent
                 @ [drive_request
                      (metadata_query ''d1'' [CHR ''i'', CHR ''t'', backslash, squote, CHR ''s''])
                      authorized_options]\<rparr>)"
    by (simp add: request.simps authorize_def fetch_drive_def quoted_parent_def constructor_def
        Let_def authorized_options_def page_def photos_def escape_quotes_def)
  have k: "path_key ([''photos''] @ [''it%27s'']) = ''/photos/it%27s/''"
    by (simp add: path_key_def)
  from t have "[] = ([] :: string list) \<longrightarrow>
            getMetadata ''photos/it%27s'' ?s =
              (case request (metadata_query (id' photos) (escape_quotes [CHR ''i'', CHR ''t'', squote, CHR ''s''])) quoted_parent of
                 (Inl e, s1) \<Rightarrow> (Inl e, s1)
               | (Inr result, s1) \<Rightarrow>
                   (Inr (first_file result),
                    s1\<lparr>pathCache := (pathCache s1)(path_key ([''photos''] @ [''it%27s'']) \<mapsto> first_file result)\<rparr>))"
    by (elim conjE)
  then have g: "getMetadata ''photos/it%27s'' ?s
       = (Inr (Some its_txt),
          quoted_parent
            \<lparr>now := 2200, drive_replies := [],
              sent := sent quoted_parent
                @ [drive_request
                     (metadata_query ''d1'' [CHR ''i'', CHR ''t'', backslash, squote, CHR ''s''])
                     authorized_options],
              pathCache := (pathCache quoted_parent)(''/photos/it%27s/'' \<mapsto> Some its_txt)\<rparr>)"
    by (simp only: answer k first_file_def simp_thms) simp
  from a c h4 sp g b d u show ?thesis
    by (intro conjI)
qed


section \<open>The facade\<close>

text \<open>
  Claim C7, as stated, has \<^verbatim>\<open>index(path)\<close> fail with status 404 exactly when the path
  resolves to the not-found outcome. A failure that the query executor throws carries the
  HTTP status of the endpoint, and neither the resolver nor \<^verbatim>\<open>index\<close> catches it: when
  the endpoint answers with the status 404, \<^verbatim>\<open>index\<close> fails with status 404 although
  the path has resolved to nothing, the not-found outcome included.
\<close>

theorem endpoint_404_passes_through_index_counterexample:
  "fst (index ''a'' (constructor misrooted_options gone_world)) = Inl (Thrown 404 ''File not found: .'')
   \<and> fst (getMetadata ''a'' (constructor misrooted_options gone_world))
       = Inl (Thrown 404 ''File not found: .'')
   \<and> fst (getMetadata ''a'' (constructor misrooted_options gone_world)) \<noteq> Inr None"
  by (simp add: index_def getMetadata_gone)

text \<open>
  Claim C7, amended. \<^verbatim>\<open>index(path)\<close> fails with status 404 exactly when the path
  resolves to the not-found outcome or the resolution itself fails with status 404: it
  answers the not-found outcome with \<^verbatim>\<open>{status: 404, message: "Path not found"}\<close> and
  passes every failure of the resolution on unchanged. When the path resolves to an object,
  it returns a copy of the
  resolved metadata (leaving the cached object itself unmodified: the cache is what the
  resolution left, and the entry of the path is still the resolved metadata) with an
  \<^verbatim>\<open>isFolder\<close> flag that is true iff the MIME type equals the folder sentinel type,
  carrying a \<^verbatim>\<open>list\<close> capability when \<^verbatim>\<open>isFolder\<close> is true and a \<^verbatim>\<open>raw\<close>
  capability when it is false, never both.
\<close>

theorem index_classifies:
  "((\<exists>message. fst (index p s) = Inl (Thrown 404 message)) \<longleftrightarrow>
      (fst (getMetadata p s) = Inr None
       \<or> (\<exists>message. fst (getMetadata p s) = Inl (Thrown 404 message))))
   \<and> (fst (getMetadata p s) = Inr None \<longrightarrow>
        index p s = (Inl (Thrown 404 ''Path not found''), snd (getMetadata p s)))
   \<and> (\<forall>e. fst (getMetadata p s) = Inl e \<longrightarrow> index p s = (Inl e, snd (getMetadata p s)))
   \<and> (\<forall>m. fst (getMetadata p s) = Inr (Some m) \<longrightarrow>
         (\<exists>v. index p s = (Inr v, snd (getMetadata p s))
            \<and> id' v = id' m \<and> mimeType v = mimeType m \<and> attrs v = attrs m
            \<and> isFolder v = (mimeType m = FOLDER_TYPE)
            \<and> (if isFolder v
                then list' v = Some (list_children (id' m)) \<and> raw v = None
                else list' v = None \<and> raw v = Some (getRawData (id' m)))))
   \<and> pathCache (snd (index p s)) = pathCache (snd (getMetadata p s))
   \<and> (\<forall>r. fst (getMetadata p s) = Inr r \<longrightarrow>
         cache_get (pathCache (snd (index p s))) (join [''/'', p, ''/'']) = r)"
proof -
  obtain a s1 where g: "getMetadata p s = (a, s1)"
    by (cases "getMetadata p s")
  have st: "snd (index p s) = s1"
    using g by (simp add: index_state)
  have look: "a = Inr r \<Longrightarrow> cache_get (pathCache s1) (join [''/'', p, ''/'']) = r" for r
    using g by (auto simp: getMetadata_def Let_def split: prod.splits sum.splits if_splits)
  show ?thesis
  proof (cases a)
    case (Inl e)
    with g st show ?thesis
      by (cases e) (simp_all add: index_def)
  next
    case (Inr r)
    note r = this
    show ?thesis
    proof (cases r)
      case None
      with g st r look [OF r] show ?thesis
        by (simp add: index_def)
    next
      case (Some m)
      with g st r look [OF r] show ?thesis
        by (cases "mimeType m = FOLDER_TYPE") (simp_all add: index_def)
    qed
  qed
qed

theorem index_classifies_witness:
  "(\<exists>v. index ''photos'' (constructor authorized_options photos_world)
          = (Inr v, snd (getMetadata ''photos'' (constructor authorized_options photos_world)))
       \<and> id' v = id' photos \<and> mimeType v = mimeType photos \<and> attrs v = attrs photos
       \<and> isFolder v = (mimeType photos = FOLDER_TYPE)
       \<and> (if isFolder v
           then list' v = Some (list_children (id' photos)) \<and> raw v = None
           else list' v = None \<and> raw v = Some (getRawData (id' photos))))
   \<and> index ''a'' (constructor authorized_options lonely_world)
       = (Inl (Thrown 404 ''Path not found''),
          snd (getMetadata ''a'' (constructor authorized_options lonely_world)))
   \<and> index ''a'' (constructor misrooted_options gone_world)
       = (Inl (Thrown 404 ''File not found: .''),
          snd (getMetadata ''a'' (constructor misrooted_options gone_world)))"
proof -
  have found: "fst (getMetadata ''photos'' (constructor authorized_options photos_world)) = Inr (Some photos)"
    by (simp add: getMetadata_photos)
  have missing: "fst (getMetadata ''a'' (constructor authorized_options lonely_world)) = Inr None"
    by (simp add: getMetadata_lonely)
  have failed: "fst (getMetadata ''a'' (constructor misrooted_options gone_world))
                  = Inl (Thrown 404 ''File not found: .'')"
    by (simp add: getMetadata_gone)
  note t1 = index_classifies [of "''photos''" "constructor authorized_options photos_world"]
  note t2 = index_classifies [of "''a''" "constructor authorized_options lonely_world"]
  note t3 = index_classifies [of "''a''" "constructor misrooted_options gone_world"]
  from t1 [THEN conjunct2, THEN conjunct2, THEN conjunct2, THEN conjunct1, rule_format, OF found]
       t2 [THEN conjunct2, THEN conjunct1, rule_format, OF missing]
       t3 [THEN conjunct2, THEN conjunct2, THEN conjunct1, rule_format, OF failed]
  show ?thesis
    by (intro conjI)
qed


section \<open>The root\<close>

text \<open>
  Claim C8. After every history of an instance, the cache maps the root path to the
  sentinel folder object seeded by the constructor (the configured root identifier, or
  \<^verbatim>\<open>root\<close>, with the folder type): no operation overwrites that entry. Resolving the
  empty path or \<^verbatim>\<open>/\<close> then returns that object and leaves the instance and the world
  as they were, so no fetch is issued.
\<close>

theorem root_always_resolves:
  "pathCache (run history (constructor opts w)) ''/'' = Some (Some (root_folder opts))
   \<and> getMetadata '''' (run history (constructor opts w))
       = (Inr (Some (root_folder opts)), run history (constructor opts w))
   \<and> getMetadata ''/'' (run history (constructor opts w))
       = (Inr (Some (root_folder opts)), run history (constructor opts w))"
proof -
  have "pathCache (constructor opts w) ''/'' = Some (Some (root_folder opts))"
    by (simp add: constructor_def Let_def root_folder_def)
  then have r: "pathCache (run history (constructor opts w)) ''/'' = Some (Some (root_folder opts))"
    by (simp add: run_root_kept)
  then have "cache_get (pathCache (run history (constructor opts w))) ''/'' = Some (root_folder opts)"
    by (simp add: cache_get_def)
  then show ?thesis
    using r by (simp add: getMetadata_def Let_def root_keys)
qed

theorem root_always_resolves_witness:
  "getMetadata '''' (run [Index ''photos'', WorldMoves 5000000 [] [] [], ListChildren ''d1'']
                       (constructor authorized_options photos_world))
     = (Inr (Some \<lparr> id' = ''root'', mimeType = FOLDER_TYPE, attrs = [] \<rparr>),
        run [Index ''photos'', WorldMoves 5000000 [] [] [], ListChildren ''d1'']
          (constructor authorized_options photos_world))"
proof -
  have "root_folder authorized_options = \<lparr> id' = ''root'', mimeType = FOLDER_TYPE, attrs = [] \<rparr>"
    by (simp add: root_folder_def authorized_options_def)
  with root_always_resolves [of "[Index ''photos'', WorldMoves 5000000 [] [] [], ListChildren ''d1'']"
         authorized_options photos_world]
  show ?thesis
    by (elim conjE) simp
qed


section \<open>A refused refresh\<close>

text \<open>
  Claim C9. When the token endpoint answers the exchange with an error payload,
  \<^verbatim>\<open>authorize()\<close> throws a failure that carries the HTTP status and the error
  description of the server, after that one exchange, and the options of the instance,
  the access token and the expiry among them, are what they were. In any state, a call of
  \<^verbatim>\<open>authorize()\<close> that changes the options is one whose exchange was granted.
\<close>

theorem failed_refresh_keeps_credentials:
  assumes "expired s" and "token_replies s = r # rs" and "t_body r = Refused description"
  shows "fst (authorize s) = Inl (Thrown (t_status r) description)
       \<and> options (snd (authorize s)) = options s
       \<and> exchanges (snd (authorize s)) = exchanges s + 1
       \<and> (\<forall>s'. options (snd (authorize s')) \<noteq> options s' \<longrightarrow>
              expired s' \<and> (\<exists>r' rs' token lifetime.
                 token_replies s' = r' # rs' \<and> t_body r' = Granted token lifetime))"
proof -
  note f = authorize_refused [OF assms]
  have "exchanges (snd (authorize s)) = exchanges s + 1"
    using authorize_exchanges [of s] assms(1) by simp
  moreover have "\<forall>s'. options (snd (authorize s')) \<noteq> options s' \<longrightarrow>
              expired s' \<and> (\<exists>r' rs' token lifetime.
                 token_replies s' = r' # rs' \<and> t_body r' = Granted token lifetime)"
    using authorize_options_changed by blast
  ultimately show ?thesis
    using f by simp
qed

theorem failed_refresh_keeps_credentials_witness:
  "fst (authorize (constructor example_options refusing_world)) = Inl (Thrown 400 ''Bad Request'')
   \<and> options (snd (authorize (constructor example_options refusing_world)))
       = options (constructor example_options refusing_world)
   \<and> access_token (options (snd (authorize (constructor example_options refusing_world)))) = None
   \<and> expires_on (options (snd (authorize (constructor example_options refusing_world)))) = None"
proof -
  let ?s = "constructor example_options refusing_world"
  let ?r = "\<lparr> t_arrive = 1200, t_status = 400, t_body = Refused ''Bad Request'' \<rparr>"
  have h1: "expired ?s"
    by (simp add: expired_def constructor_def Let_def example_options_def)
  have h2: "token_replies ?s = ?r # []"
    by (simp add: constructor_def Let_def refusing_world_def)
  have h3: "t_body ?r = Refused ''Bad Request''"
    by simp
  have o: "access_token (options ?s) = None \<and> expires_on (options ?s) = None"
    by (simp add: constructor_def Let_def example_options_def)
  show ?thesis
    using failed_refresh_keeps_credentials [OF h1 h2 h3] o by simp
qed


section \<open>Listing and the cache\<close>

text \<open>
  Claim C10. Listing the children of a folder writes nothing into the path cache, neither
  \<^verbatim>\<open>listFiles\<close> nor the \<^verbatim>\<open>list\<close> capability built on it; nor do the query
  executor, \<^verbatim>\<open>authorize\<close> and the reading of raw data. So when a folder is cached
  and the path of a child of it is not, then after the folder has been listed the
  resolution of the child's path still calls the query executor for that segment, and
  with a valid token the fetch for it is the next one sent.
\<close>

theorem listing_leaves_cache_alone:
  assumes "segments p = pre @ [n]"
    and "\<forall>k < length pre. cache_get (pathCache s) (path_key (take (Suc k) pre)) \<noteq> None"
    and "cache_get (pathCache s) (path_key pre) = Some m"
    and "cache_get (pathCache s) (path_key (pre @ [n])) = None"
    and "decodeURIComponent n = Some d"
    and "s' = snd (list_children (id' m) s)"
    and "\<not> expired s'"
  shows "pathCache (snd (listFiles ident s)) = pathCache s
       \<and> pathCache (snd (request params s)) = pathCache s
       \<and> pathCache (snd (authorize s)) = pathCache s
       \<and> pathCache (snd (getRawData ident byte_range s)) = pathCache s
       \<and> pathCache s' = pathCache s
       \<and> getMetadata p s' =
           (case request (metadata_query (id' m) (escape_quotes d)) s' of
              (Inl e, s1) \<Rightarrow> (Inl e, s1)
            | (Inr result, s1) \<Rightarrow>
                (Inr (first_file result),
                 s1\<lparr>pathCache := (pathCache s1)(path_key (pre @ [n]) \<mapsto> first_file result)\<rparr>))
       \<and> (\<exists>more. sent (snd (getMetadata p s')) =
                   sent s' @ drive_request (metadata_query (id' m) (escape_quotes d)) (options s') # more)"
proof -
  have c: "pathCache s' = pathCache s"
    by (simp add: assms(6) list_children_pathCache)
  have h2: "\<forall>k < length pre. cache_get (pathCache s') (path_key (take (Suc k) pre)) \<noteq> None"
    and h3: "cache_get (pathCache s') (path_key pre) = Some m"
    and h4: "cache_get (pathCache s') (path_key (pre @ [n])) = None"
    using assms(2-4) by (simp_all add: c)
  note step = getMetadata_last_segment [OF assms(1) h2 h3 h4 assms(5)]
  have "sent (snd (getMetadata p s')) = sent (snd (request (metadata_query (id' m) (escape_quotes d)) s'))"
    using assms(1) h2 h3 h4 assms(5) by (rule getMetadata_last_segment_sent)
  with request_sends [OF assms(7), of "metadata_query (id' m) (escape_quotes d)"]
  have "\<exists>more. sent (snd (getMetadata p s')) =
                   sent s' @ drive_request (metadata_query (id' m) (escape_quotes d)) (options s') # more"
    by simp
  with c step show ?thesis
    by (simp add: listFiles_pathCache request_pathCache authorize_pathCache getRawData_pathCache)
qed

theorem listing_leaves_cache_alone_witness:
  "getMetadata ''photos'' (constructor authorized_options album_world) = (Inr (Some photos), album_resolved)
   \<and> list_children (id' photos) album_resolved
       = (Inr [\<lparr> id' = ''f3'', mimeType = ''image/jpeg'', attrs = [(''name'', ''cat.jpg'')],
                 isFolder = False \<rparr>], album_listed)
   \<and> pathCache album_listed ''/photos/cat.jpg/'' = None
   \<and> pathCache (snd (list_children (id' photos) album_resolved)) = pathCache album_resolved
   \<and> (\<exists>more. sent (snd (getMetadata ''photos/cat.jpg'' (snd (list_children (id' photos) album_resolved)))) =
         sent (snd (list_children (id' photos) album_resolved))
           @ drive_request (metadata_query (id' photos) (escape_quotes ''cat.jpg''))
               (options (snd (list_children (id' photos) album_resolved))) # more)
   \<and> fst (getMetadata ''photos/cat.jpg'' (snd (list_children (id' photos) album_resolved)))
       = Inr (Some cat_jpg)"
proof -
  have resolved: "getMetadata ''photos'' (constructor authorized_options album_world)
                    = (Inr (Some photos), album_resolved)"
    by (simp add: eval_simps album_world_def escape_quotes_def album_resolved_def)
  have h1: "segments ''photos/cat.jpg'' = [''photos''] @ [''cat.jpg'']"
    by (simp add: segments_def)
  have h2: "\<forall>k < length [''photos'']. cache_get (pathCache album_resolved) (path_key (take (Suc k) [''photos''])) \<noteq> None"
    by (simp add: path_key_def album_resolved_def cache_get_def)
  have h3: "cache_get (pathCache album_resolved) (path_key [''photos'']) = Some photos"
    by (simp add: path_key_def album_resolved_def cache_get_def)
  have h4: "cache_get (pathCache album_resolved) (path_key ([''photos''] @ [''cat.jpg''])) = None"
    by (simp add: path_key_def album_resolved_def cache_get_def constructor_def Let_def)
  have h5: "decodeURIComponent ''cat.jpg'' = Some ''cat.jpg''"
    by (simp add: decodeURIComponent_def)
  have listed: "list_children (id' photos) album_resolved =
          (Inr [\<lparr> id' = ''f3'', mimeType = ''image/jpeg'', attrs = [(''name'', ''cat.jpg'')],
                   isFolder = False \<rparr>], album_listed)"
    by (simp add: list_children_def listFiles_def listFiles_loop.simps request.simps authorize_def
        fetch_drive_def album_resolved_def album_listed_def constructor_def Let_def
        authorized_options_def page_def photos_def cat_jpg_def token_set_def with_token_def
        FOLDER_TYPE_def)
  have fresh: "pathCache album_listed ''/photos/cat.jpg/'' = None"
    by (simp add: album_listed_def album_resolved_def constructor_def Let_def)
  have h7: "\<not> expired (snd (list_children (id' photos) album_resolved))"
    unfolding listed snd_conv
    by (simp add: expired_def album_listed_def album_resolved_def constructor_def Let_def authorized_options_def)
  have answer: "request (metadata_query (id' photos) (escape_quotes ''cat.jpg'')) album_listed
          = (Inr \<lparr> files = [cat_jpg], nextPageToken = None \<rparr>,
             album_listed\<lparr>now := 2300, drive_replies := [],
               sent := sent album_listed
                 @ [drive_request (metadata_query ''d1'' ''cat.jpg'') authorized_options]\<rparr>)"
    by (simp add: request.simps authorize_def fetch_drive_def album_listed_def album_resolved_def
        constructor_def Let_def authorized_options_def page_def photos_def escape_quotes_def)
  note t = listing_leaves_cache_alone [OF h1 h2 h3 h4 h5 refl h7,
      where ident = "''d1''" and params = "[]" and byte_range = "[]"]
  have found: "fst (getMetadata ''photos/cat.jpg'' (snd (list_children (id' photos) album_resolved)))
                 = Inr (Some cat_jpg)"
    using t [THEN conjunct2, THEN conjunct2, THEN conjunct2, THEN conjunct2, THEN conjunct2, THEN conjunct1]
    unfolding listed snd_conv
    by (simp add: answer first_file_def)
  from resolved listed fresh found t
  show ?thesis
    by (elim conjE) (intro conjI, assumption+)
qed


end
